theory Spec2Isabelle
  imports Main "HOL-Library.AList"
begin

section \<open>JavaScript values\<close>

text \<open>
  The filter translator of \<^verbatim>\<open>src/lib/index.ts\<close> is untyped: it receives whatever the
  query options hold. Its inputs are modelled as JavaScript values. A plain object is the
  list of its own enumerable properties in enumeration order (keys are distinct in a value
  that represents an object); an instance of a class is the same list tagged with the class
  name, so that it is an object but not a plain one. Numbers are integers: only their
  truthiness and their decimal rendering are used.
\<close>

datatype jsval =
    JUndefined
  | JNull
  | JBool bool
  | JNum int
  | JStr string
  | JArr "jsval list"
  | JObj "(string \<times> jsval) list"
  | JInst string "(string \<times> jsval) list"

text \<open>
  What the code throws: \<^verbatim>\<open>new Error(message)\<close>, the \<^verbatim>\<open>TypeError\<close> of calling
  something that is not a function, and the \<^verbatim>\<open>RangeError\<close> of an exhausted call stack.
\<close>

datatype error = Error string | TypeError | RangeError

fun andThen :: "error + 'a \<Rightarrow> ('a \<Rightarrow> error + 'b) \<Rightarrow> error + 'b" where
  "andThen (Inl e) f = Inl e"
| "andThen (Inr x) f = f x"

fun mapM :: "('a \<Rightarrow> error + 'b) \<Rightarrow> 'a list \<Rightarrow> error + 'b list" where
  "mapM f [] = Inr []"
| "mapM f (x # xs) = andThen (f x) (\<lambda>y. andThen (mapM f xs) (\<lambda>ys. Inr (y # ys)))"

text \<open>Truthiness, as \<^verbatim>\<open>if (v)\<close> and \<^verbatim>\<open>!v\<close> read a value.\<close>

fun truthy :: "jsval \<Rightarrow> bool" where
  "truthy JUndefined = False"
| "truthy JNull = False"
| "truthy (JBool b) = b"
| "truthy (JNum n) = (n \<noteq> 0)"
| "truthy (JStr s) = (s \<noteq> [])"
| "truthy (JArr xs) = True"
| "truthy (JObj kvs) = True"
| "truthy (JInst c kvs) = True"

text \<open>\<^verbatim>\<open>v != null\<close>, the test of \<^verbatim>\<open>_.pickBy\<close> in \<^verbatim>\<open>list\<close> and \<^verbatim>\<open>get\<close>.\<close>

fun nullish :: "jsval \<Rightarrow> bool" where
  "nullish JUndefined = True"
| "nullish JNull = True"
| "nullish v = False"

text \<open>Decimal rendering of array indices and numbers (\<^verbatim>\<open>String(n)\<close>).\<close>

definition digit_char :: "nat \<Rightarrow> char" where
  "digit_char d = ''0123456789'' ! (d mod 10)"

fun show_nat :: "nat \<Rightarrow> string" where
  "show_nat n = (if n < 10 then [digit_char n] else show_nat (n div 10) @ [digit_char n])"

definition show_int :: "int \<Rightarrow> string" where
  "show_int i = (if i < 0 then CHR ''-'' # show_nat (nat (- i)) else show_nat (nat i))"

text \<open>
  The own enumerable properties of a value, in the order \<^verbatim>\<open>for (let k in v)\<close> visits
  them: the entries of an object, the indices of an array, the indices of a string.
\<close>

fun props :: "jsval \<Rightarrow> (string \<times> jsval) list" where
  "props (JObj kvs) = kvs"
| "props (JInst c kvs) = kvs"
| "props (JArr xs) = zip (map show_nat [0..<length xs]) xs"
| "props (JStr s) = zip (map show_nat [0..<length s]) (map (\<lambda>c. JStr [c]) s)"
| "props v = []"

text \<open>
  \<^verbatim>\<open>v.k\<close> and \<^verbatim>\<open>v[k]\<close> for a key that is no inherited property (the code reads
  \<^verbatim>\<open>$and\<close>, \<^verbatim>\<open>$or\<close>, \<^verbatim>\<open>$not\<close>, \<^verbatim>\<open>$like\<close> and the keys it
  enumerates): the own property, or \<^verbatim>\<open>undefined\<close>.
\<close>

definition getprop :: "jsval \<Rightarrow> string \<Rightarrow> jsval" where
  "getprop v k = (case map_of (props v) k of None \<Rightarrow> JUndefined | Some x \<Rightarrow> x)"

text \<open>
  \<^verbatim>\<open>v[k] = x\<close>. The object is updated in place in the source; the model returns the
  updated value. An existing key keeps its position, a new key of an object goes last.
\<close>

fun setprop :: "jsval \<Rightarrow> string \<Rightarrow> jsval \<Rightarrow> jsval" where
  "setprop (JObj kvs) k x = JObj (AList.update k x kvs)"
| "setprop (JInst c kvs) k x = JInst c (AList.update k x kvs)"
| "setprop (JArr xs) k x =
     JArr (map (\<lambda>(k', y). if k' = k then x else y) (props (JArr xs)))"
| "setprop v k x = v"

text \<open>\<^verbatim>\<open>_.isPlainObject\<close>.\<close>

fun isPlainObject :: "jsval \<Rightarrow> bool" where
  "isPlainObject (JObj kvs) = True"
| "isPlainObject v = False"

text \<open>
  \<^verbatim>\<open>v.toLowerCase()\<close>. The lower-casing of a string is the language's own, with its
  table of cased letters: it is the parameter \<open>lc\<close>, and nothing is assumed of it. On a
  value that is not a string the method is missing and the call throws a
  \<^verbatim>\<open>TypeError\<close>.
\<close>

fun toLowerCase :: "(string \<Rightarrow> string) \<Rightarrow> jsval \<Rightarrow> error + jsval" where
  "toLowerCase lc (JStr s) = Inr (JStr (lc s))"
| "toLowerCase lc v = Inl TypeError"

text \<open>\<^verbatim>\<open>a.map(cb)\<close>: on an array the callback runs on each element in order; any other
  value the model can hold has no callable \<^verbatim>\<open>map\<close>.\<close>

fun array_map :: "(jsval \<Rightarrow> error + jsval) \<Rightarrow> jsval \<Rightarrow> error + jsval" where
  "array_map cb (JArr xs) = andThen (mapM cb xs) (\<lambda>ys. Inr (JArr ys))"
| "array_map cb v = Inl TypeError"

subsection \<open>The storage library's expression constructors\<close>

text \<open>
  \<^verbatim>\<open>Sequelize.col\<close>, \<^verbatim>\<open>Sequelize.fn\<close> and \<^verbatim>\<open>Sequelize.where\<close> belong to the
  storage library, not to this repository. Each returns an instance that records its
  arguments; with two arguments \<^verbatim>\<open>where\<close> takes the comparator \<^verbatim>\<open>=\<close>.
\<close>

definition Sequelize_col :: "string \<Rightarrow> jsval" where
  "Sequelize_col c = JInst ''Col'' [(''col'', JStr c)]"

definition Sequelize_fn :: "string \<Rightarrow> jsval list \<Rightarrow> jsval" where
  "Sequelize_fn f args = JInst ''Fn'' [(''fn'', JStr f), (''args'', JArr args)]"

definition Sequelize_where :: "jsval \<Rightarrow> jsval \<Rightarrow> jsval" where
  "Sequelize_where attr logic =
     JInst ''Where'' [(''attribute'', attr), (''comparator'', JStr ''=''), (''logic'', logic)]"

section \<open>The filter translator\<close>

text \<open>
  The loop \<^verbatim>\<open>for (let k in filter)\<close> of \<^verbatim>\<open>translateFilter\<close>, over the keys that remain
  to be visited; the filter is the loop's state.
\<close>

definition too_complex :: "string \<Rightarrow> error" where
  "too_complex k = Error (''filter key '' @ k @ '' query is too complex'')"

fun for_k_in :: "(string \<Rightarrow> string) \<Rightarrow> string list \<Rightarrow> jsval \<Rightarrow> error + jsval" where
  "for_k_in lc [] filt = Inr filt"
| "for_k_in lc (k # ks) filt =
     (let val = getprop filt k in
      if isPlainObject val then
        if length (props val) > 1 then Inl (too_complex k)
        else if truthy (getprop val ''$like'') then
          andThen (toLowerCase lc (getprop val ''$like'')) (\<lambda>p.
            for_k_in lc ks
              (setprop filt k
                (Sequelize_where (Sequelize_fn ''lower'' [Sequelize_col k])
                   (JObj [(''$like'', p)]))))
        else for_k_in lc ks filt
      else for_k_in lc ks filt)"

text \<open>
  \<^verbatim>\<open>translateFilter(filter, extra)\<close>. The argument \<open>lc\<close> is the lower-casing of
  strings; the next one is the number of nested calls
  the call stack still has room for: a call that finds no room throws the engine's
  \<^verbatim>\<open>RangeError\<close>. The result is the returned value paired with the value the caller's
  filter object holds afterwards, since the source rewrites that object in place (the
  filter is a tree: no object occurs in it twice). The callback of \<^verbatim>\<open>map\<close> passes no
  \<^verbatim>\<open>extra\<close>, and the \<^verbatim>\<open>$not\<close> branch passes the filter itself.
\<close>

fun translateFilter ::
  "(string \<Rightarrow> string) \<Rightarrow> nat \<Rightarrow> jsval \<Rightarrow> jsval \<Rightarrow> error + (jsval \<times> jsval)" where
  "translateFilter lc 0 filt extra = Inl RangeError"
| "translateFilter lc (Suc stack) filt extra =
     (if \<not> truthy filt then Inr (extra, filt)
      else
        andThen
          (if truthy (getprop filt ''$and'')
           then andThen
                  (array_map (\<lambda>c. andThen (translateFilter lc stack c JUndefined) (\<lambda>r. Inr (fst r)))
                     (getprop filt ''$and''))
                  (\<lambda>v. Inr (setprop filt ''$and'' v))
           else Inr filt)
          (\<lambda>filt.
        andThen
          (if truthy (getprop filt ''$or'')
           then andThen
                  (array_map (\<lambda>c. andThen (translateFilter lc stack c JUndefined) (\<lambda>r. Inr (fst r)))
                     (getprop filt ''$or''))
                  (\<lambda>v. Inr (setprop filt ''$or'' v))
           else Inr filt)
          (\<lambda>filt.
        andThen
          (if truthy (getprop filt ''$not'')
           then andThen (translateFilter lc stack filt JUndefined)
                  (\<lambda>r. Inr (setprop (snd r) ''$not'' (fst r)))
           else Inr filt)
          (\<lambda>filt.
        andThen (for_k_in lc (map fst (props filt)) filt)
          (\<lambda>filt.
        if truthy extra then Inr (JObj [(''$and'', JArr [filt, extra])], filt)
        else Inr (filt, filt))))))"


subsection \<open>Filter trees and the rewriting the translator is meant to perform\<close>

text \<open>
  The filter predicates of the query model: an object with distinct keys in which
  \<^verbatim>\<open>$and\<close> and \<^verbatim>\<open>$or\<close> hold arrays of filter predicates and every other key holds
  a leaf value: a scalar, or an object with at most one operator key, whose \<^verbatim>\<open>$like\<close>
  operand is a string. \<open>filter_tree n\<close> holds of the trees without \<^verbatim>\<open>$not\<close> that are
  nested at most \<open>n\<close> deep.
\<close>

fun isString :: "jsval \<Rightarrow> bool" where
  "isString (JStr s) = True"
| "isString v = False"

definition leaf_value :: "jsval \<Rightarrow> bool" where
  "leaf_value v =
     (isPlainObject v \<longrightarrow>
        length (props v) \<le> 1 \<and>
        (truthy (getprop v ''$like'') \<longrightarrow> isString (getprop v ''$like'')))"

fun filter_tree :: "nat \<Rightarrow> jsval \<Rightarrow> bool" where
  "filter_tree 0 v = False"
| "filter_tree (Suc n) v =
     (case v of
        JObj kvs \<Rightarrow>
          distinct (map fst kvs) \<and>
          list_all (\<lambda>(k, x).
            k \<noteq> ''$not'' \<and>
            (if k = ''$and'' \<or> k = ''$or''
             then (case x of JArr cs \<Rightarrow> list_all (filter_tree n) cs | _ \<Rightarrow> False)
             else leaf_value x)) kvs
      | _ \<Rightarrow> False)"

text \<open>
  A leaf with more than one operator key, and the trees that differ from filter trees
  only in that their leaves may be such compound leaves.
\<close>

definition compound_leaf :: "jsval \<Rightarrow> bool" where
  "compound_leaf v = (isPlainObject v \<and> 1 < length (props v))"

fun loose_tree :: "nat \<Rightarrow> jsval \<Rightarrow> bool" where
  "loose_tree 0 v = False"
| "loose_tree (Suc n) v =
     (case v of
        JObj kvs \<Rightarrow>
          distinct (map fst kvs) \<and>
          list_all (\<lambda>(k, x).
            k \<noteq> ''$not'' \<and>
            (if k = ''$and'' \<or> k = ''$or''
             then (case x of JArr cs \<Rightarrow> list_all (loose_tree n) cs | _ \<Rightarrow> False)
             else leaf_value x \<or> compound_leaf x)) kvs
      | _ \<Rightarrow> False)"

text \<open>
  The rewriting in the words of the specification, as the code implements it: a leaf
  \<^verbatim>\<open>{field: {$like: pattern}}\<close> with a non-empty pattern becomes the comparison of the
  lower-cased column with the lower-cased pattern; every other leaf stays; the children
  of \<^verbatim>\<open>$and\<close> and \<^verbatim>\<open>$or\<close> are rewritten in turn.
\<close>

fun like_leaf :: "jsval \<Rightarrow> bool" where
  "like_leaf (JObj [(op, JStr pattern)]) = (op = ''$like'' \<and> pattern \<noteq> [])"
| "like_leaf v = False"

definition like_comparison :: "(string \<Rightarrow> string) \<Rightarrow> string \<Rightarrow> string \<Rightarrow> jsval" where
  "like_comparison lc field pattern =
     Sequelize_where (Sequelize_fn ''lower'' [Sequelize_col field])
       (JObj [(''$like'', JStr (lc pattern))])"

fun rewrite_leaf :: "(string \<Rightarrow> string) \<Rightarrow> string \<Rightarrow> jsval \<Rightarrow> jsval" where
  "rewrite_leaf lc field (JObj [(op, JStr pattern)]) =
     (if op = ''$like'' \<and> pattern \<noteq> [] then like_comparison lc field pattern
      else JObj [(op, JStr pattern)])"
| "rewrite_leaf lc field v = v"

fun rewritten :: "(string \<Rightarrow> string) \<Rightarrow> jsval \<Rightarrow> jsval" where
  "rewritten lc (JObj kvs) =
     JObj (map (\<lambda>(k, v).
        (k, if k = ''$and'' \<or> k = ''$or''
            then (case v of JArr cs \<Rightarrow> JArr (map (rewritten lc) cs) | _ \<Rightarrow> v)
            else rewrite_leaf lc k v)) kvs)"
| "rewritten lc v = v"

text \<open>
  The leaves of a filter, each with its field, in the order of the tree: the entries
  that are no combinator, and the leaves of the children of \<^verbatim>\<open>$and\<close> and \<^verbatim>\<open>$or\<close>.
\<close>

fun leaves :: "jsval \<Rightarrow> (string \<times> jsval) list" where
  "leaves (JObj kvs) =
     concat (map (\<lambda>(k, v).
        if k = ''$and'' \<or> k = ''$or''
        then (case v of JArr cs \<Rightarrow> concat (map leaves cs) | _ \<Rightarrow> [])
        else [(k, v)]) kvs)"
| "leaves v = []"

section \<open>The storage engine and the resource library\<close>

text \<open>
  The storage engine, the constraint tester, the query options and the resource library
  are other packages. What the collection operations use of them is modelled here from
  their contracts: a table of rows, a \<^verbatim>\<open>where\<close> object read as the conjunction of its
  field conditions (with \<^verbatim>\<open>$and\<close> and \<^verbatim>\<open>$or\<close> over arrays of \<^verbatim>\<open>where\<close>
  objects), and a log of the calls the engine received, each with what was sent. A
  created row gets the table's next identifier unless the attributes bring one (the
  engine's timestamps are left out); \<open>returning\<close> tells whether an update reports the
  count together with the updated rows or the count alone.
\<close>

type_synonym row = "(string \<times> jsval) list"

record query =
  limit_q :: "int option"
  offset_q :: "int option"
  where_q :: "jsval option"
  attributes_q :: "string list option"
  order_q :: "(string \<times> string) list option"
  include_q :: "string list option"

datatype call =
    FindAndCountAll query
  | FindOne query
  | Create row
  | Update row jsval
  | Destroy jsval

record table =
  rows :: "row list"
  nextId :: int
  returning :: bool
  calls :: "call list"

record resource =
  self :: string
  attributes :: row
  links :: "(string \<times> string) list"

text \<open>
  The query options are an opaque, already parsed input; the model keeps what the
  operations read from them. \<open>filter_o\<close> is the object \<^verbatim>\<open>options.filter()\<close> hands to
  the call, \<open>fieldsFor_self\<close> the array \<^verbatim>\<open>options.fieldsFor('$self')\<close> hands to it.
\<close>

record page =
  page_number :: int
  page_size :: int

record QueryOptions =
  page_o :: page
  sort_o :: "(string \<times> int) list option"
  fieldsFor_self :: "string list option"
  filter_o :: jsval
  include_o :: "string list option"

text \<open>
  What is left to the other packages is a parameter of the operations: how the engine
  reads one field condition (\<open>cond\<close>), how it orders and pages the rows that match a
  list query (\<open>paged\<close>), what the constraint tester answers (\<open>test\<close>), how the
  language lower-cases a string (\<open>lowerCase\<close>), what the conversion of the included
  relationships and the flattening do to a resource (\<open>convertAndFlatten\<close>), and what
  \<^verbatim>\<open>list\<close> makes of the elements and the count: page count, page links, included
  relationships and the collection resource of type \<open>'c\<close> (\<open>assembleList\<close>).
\<close>

record 'c env =
  cond :: "string \<Rightarrow> jsval \<Rightarrow> row \<Rightarrow> bool"
  paged :: "query \<Rightarrow> row list \<Rightarrow> row list"
  test :: "jsval \<Rightarrow> row \<Rightarrow> bool"
  lowerCase :: "string \<Rightarrow> string"
  convertAndFlatten :: "(string \<times> string) list \<Rightarrow> resource \<Rightarrow> error + resource"
  assembleList ::
    "string \<Rightarrow> QueryOptions \<Rightarrow> (string \<times> string) list \<Rightarrow> resource list \<Rightarrow> int \<Rightarrow> error + 'c"

fun where_holds :: "(string \<Rightarrow> jsval \<Rightarrow> row \<Rightarrow> bool) \<Rightarrow> jsval \<Rightarrow> row \<Rightarrow> bool" where
  "where_holds c (JObj kvs) r =
     list_all (\<lambda>(k, v).
        if k = ''$and'' then (case v of JArr ps \<Rightarrow> list_all (\<lambda>p. where_holds c p r) ps | _ \<Rightarrow> c k v r)
        else if k = ''$or'' then (case v of JArr ps \<Rightarrow> list_ex (\<lambda>p. where_holds c p r) ps | _ \<Rightarrow> c k v r)
        else c k v r) kvs"
| "where_holds c v r = True"

definition matching :: "'c env \<Rightarrow> jsval option \<Rightarrow> row \<Rightarrow> bool" where
  "matching e w r = (case w of None \<Rightarrow> True | Some p \<Rightarrow> where_holds (cond e) p r)"

definition project :: "string list option \<Rightarrow> row \<Rightarrow> row" where
  "project attrs r = (case attrs of None \<Rightarrow> r | Some names \<Rightarrow> filter (\<lambda>(k, v). k \<in> set names) r)"

definition model_findAndCountAll ::
  "'c env \<Rightarrow> query \<Rightarrow> table \<Rightarrow> (row list \<times> int) \<times> table" where
  "model_findAndCountAll e q t =
     (let matched = filter (matching e (where_q q)) (rows t)
      in ((map (project (attributes_q q)) (paged e q matched), int (length matched)),
          t\<lparr>calls := calls t @ [FindAndCountAll q]\<rparr>))"

definition model_findOne :: "'c env \<Rightarrow> query \<Rightarrow> table \<Rightarrow> row option \<times> table" where
  "model_findOne e q t =
     (map_option (project (attributes_q q)) (find (matching e (where_q q)) (rows t)),
      t\<lparr>calls := calls t @ [FindOne q]\<rparr>)"

definition model_create :: "row \<Rightarrow> table \<Rightarrow> row \<times> table" where
  "model_create attrs t =
     (let r = (if ''id'' \<in> fst ` set attrs then attrs else (''id'', JNum (nextId t)) # attrs)
      in (r, t\<lparr>rows := rows t @ [r], nextId := nextId t + 1, calls := calls t @ [Create attrs]\<rparr>))"

datatype update_reply = CountAndRows int "row list" | CountOnly int

definition assign_fields :: "row \<Rightarrow> row \<Rightarrow> row" where
  "assign_fields attrs r = fold (\<lambda>(k, v) acc. AList.update k v acc) attrs r"

definition model_update :: "'c env \<Rightarrow> row \<Rightarrow> jsval \<Rightarrow> table \<Rightarrow> update_reply \<times> table" where
  "model_update e attrs w t =
     (let hit = where_holds (cond e) w;
          updated = map (assign_fields attrs) (filter hit (rows t));
          t' = t\<lparr>rows := map (\<lambda>r. if hit r then assign_fields attrs r else r) (rows t),
                 calls := calls t @ [Update attrs w]\<rparr>
      in (if returning t then CountAndRows (int (length updated)) updated
          else CountOnly (int (length updated)), t'))"

definition model_destroy :: "'c env \<Rightarrow> jsval \<Rightarrow> table \<Rightarrow> int \<times> table" where
  "model_destroy e w t =
     (int (length (filter (where_holds (cond e) w) (rows t))),
      t\<lparr>rows := filter (\<lambda>r. \<not> where_holds (cond e) w r) (rows t),
        calls := calls t @ [Destroy w]\<rparr>)"

subsection \<open>Resources and their self links\<close>

text \<open>\<^verbatim>\<open>String(v)\<close>, as string concatenation and template interpolation render a value.\<close>

fun intercalate :: "string \<Rightarrow> string list \<Rightarrow> string" where
  "intercalate sep [] = []"
| "intercalate sep [x] = x"
| "intercalate sep (x # y # ys) = x @ sep @ intercalate sep (y # ys)"

fun js_toString :: "jsval \<Rightarrow> string" where
  "js_toString JUndefined = ''undefined''"
| "js_toString JNull = ''null''"
| "js_toString (JBool b) = (if b then ''true'' else ''false'')"
| "js_toString (JNum n) = show_int n"
| "js_toString (JStr s) = s"
| "js_toString (JArr xs) =
     intercalate '','' (map (\<lambda>x. if nullish x then [] else js_toString x) xs)"
| "js_toString (JObj kvs) = ''[object Object]''"
| "js_toString (JInst c kvs) = ''[object Object]''"

text \<open>
  Modelled from the spec: the resource library's constructor, which is not part of this
  repository. A resource is built from a URL template and the entity's attributes; its
  self link is the template with every placeholder \<^verbatim>\<open><%=name%>\<close> replaced by the
  attribute of that name (nothing for a missing or null attribute). Text that is no
  complete placeholder is copied.
\<close>

fun take_until_close :: "string \<Rightarrow> (string \<times> string) option" where
  "take_until_close [] = None"
| "take_until_close (c # cs) =
     (if c = CHR ''%'' \<and> take 1 cs = ''>'' then Some ([], drop 1 cs)
      else map_option (\<lambda>(n, r). (c # n, r)) (take_until_close cs))"

definition placeholder :: "string \<Rightarrow> (string \<times> string) option" where
  "placeholder s =
     (if take 3 s = ''<%='' then
        (case drop 3 s of [] \<Rightarrow> None
         | c # cs \<Rightarrow> map_option (\<lambda>(n, r). (c # n, r)) (take_until_close cs))
      else None)"

fun render_from :: "nat \<Rightarrow> row \<Rightarrow> string \<Rightarrow> string" where
  "render_from skip attrs [] = []"
| "render_from (Suc skip) attrs (c # cs) = render_from skip attrs cs"
| "render_from 0 attrs (c # cs) =
     (case placeholder (c # cs) of
        None \<Rightarrow> c # render_from 0 attrs cs
      | Some (name, rest) \<Rightarrow>
          (let v = getprop (JObj attrs) name in if nullish v then [] else js_toString v)
          @ render_from (length name + 4) attrs cs)"

definition render :: "string \<Rightarrow> row \<Rightarrow> string" where
  "render template attrs = render_from 0 attrs template"

definition Resource :: "string \<Rightarrow> row \<Rightarrow> resource" where
  "Resource template attrs = \<lparr>self = render template attrs, attributes = attrs, links = []\<rparr>"

section \<open>The collection operations\<close>

record EntityRelationship =
  relationship :: string
  link :: string

text \<open>\<^verbatim>\<open>_.pick(object, keys)\<close>: the entries of the object under the given keys, in the
  order the keys are given.\<close>

fun pick :: "(string \<times> 'a) list \<Rightarrow> string list \<Rightarrow> (string \<times> 'a) list \<Rightarrow> (string \<times> 'a) list" where
  "pick obj [] acc = acc"
| "pick obj (n # ns) acc =
     (case map_of obj n of None \<Rightarrow> pick obj ns acc
      | Some v \<Rightarrow> pick obj ns (AList.update n v acc))"

definition getInclude ::
  "(string \<times> EntityRelationship) list \<Rightarrow> QueryOptions \<Rightarrow> (EntityRelationship \<Rightarrow> string)
     \<Rightarrow> (string \<times> string) list option" where
  "getInclude relationships options field =
     (case include_o options of
        Some incl \<Rightarrow> Some (map (\<lambda>(k, v). (k, field v)) (pick relationships incl []))
      | None \<Rightarrow> None)"

text \<open>\<^verbatim>\<open>_.values\<close>, which gives the empty array for \<^verbatim>\<open>null\<close>.\<close>

definition values_of :: "(string \<times> 'a) list option \<Rightarrow> 'a list" where
  "values_of d = (case d of None \<Rightarrow> [] | Some kvs \<Rightarrow> map snd kvs)"

definition getSortOptions :: "QueryOptions \<Rightarrow> (string \<times> string) list option" where
  "getSortOptions options =
     (case sort_o options of
        Some srt \<Rightarrow>
          Some (map (\<lambda>(key, direction). (key, if direction = 1 then ''ASC'' else ''DESC'')) srt)
      | None \<Rightarrow> None)"

text \<open>\<^verbatim>\<open>_.pickBy(..., (v) => v != null)\<close> on the \<^verbatim>\<open>where\<close> entry of a query.\<close>

definition pickBy_notNull :: "jsval \<Rightarrow> jsval option" where
  "pickBy_notNull v = (if nullish v then None else Some v)"

text \<open>
  \<^verbatim>\<open>if (query.attributes && query.attributes.indexOf('id') === -1) query.attributes.push('id')\<close>
  (an array is truthy, also when empty). The array of the query is the array the query
  options handed out, and \<^verbatim>\<open>push\<close> extends it in place.
\<close>

definition push_id :: "query \<Rightarrow> query" where
  "push_id q =
     (case attributes_q q of
        Some attrs \<Rightarrow> if ''id'' \<notin> set attrs then q\<lparr>attributes_q := Some (attrs @ [''id''])\<rparr> else q
      | None \<Rightarrow> q)"

text \<open>The object spread \<^verbatim>\<open>{id, ...filter}\<close>: the own properties of the spread value are
  assigned over the entries written before it.\<close>

definition object_spread :: "(string \<times> jsval) list \<Rightarrow> jsval \<Rightarrow> jsval" where
  "object_spread entries v = JObj (fold (\<lambda>(k, x) acc. AList.update k x acc) (props v) entries)"

text \<open>
  \<^verbatim>\<open>list\<close>, up to the query it sends to \<^verbatim>\<open>findAndCountAll\<close> (lines 43 to 56). The
  result holds the query and, after it, the values that the two objects handed out by
  the query options hold when the query is built: the filter object, which the
  translator has rewritten in place, and the fieldset array, onto which \<^verbatim>\<open>id\<close> has been
  pushed. Whether the query options keep these objects is their library's matter.
\<close>

definition list_query ::
  "(string \<Rightarrow> string) \<Rightarrow> nat \<Rightarrow> (string \<times> EntityRelationship) list \<Rightarrow> QueryOptions \<Rightarrow> jsval
     \<Rightarrow> error + (query \<times> jsval \<times> string list option)" where
  "list_query lc stack relationships options filt =
     (let page = page_o options;
          includeRelationships = values_of (getInclude relationships options relationship)
      in andThen (translateFilter lc stack (filter_o options) filt) (\<lambda>(w, filt').
           (let query = push_id
                  \<lparr>limit_q = Some (page_size page),
                   offset_q = Some ((page_number page - 1) * page_size page),
                   where_q = pickBy_notNull w,
                   attributes_q = fieldsFor_self options,
                   order_q = getSortOptions options,
                   include_q = Some includeRelationships\<rparr>
            in Inr (query, filt', attributes_q query))))"

text \<open>
  \<^verbatim>\<open>list\<close>: the query goes to the engine, each row of the answer becomes an element
  with the self link template \<^verbatim>\<open>url + '/<%=id%>'\<close>, and the collection resource is
  assembled from the elements and the count. A filter that does not translate ends the
  call before the engine is reached.
\<close>

definition list ::
  "'c env \<Rightarrow> nat \<Rightarrow> (string \<times> EntityRelationship) list \<Rightarrow> string \<Rightarrow> QueryOptions \<Rightarrow> jsval
     \<Rightarrow> table \<Rightarrow> (error + 'c) \<times> table" where
  "list e stack relationships url options filt t =
     (case list_query (lowerCase e) stack relationships options filt of
        Inl err \<Rightarrow> (Inl err, t)
      | Inr (query, filt', fields') \<Rightarrow>
          (let (result, t') = model_findAndCountAll e query t;
               elements = map (\<lambda>user. Resource (url @ ''/<%=id%>'') user) (fst result)
           in (assembleList e url options
                 (case getInclude relationships options link of
                    Some includeLinks \<Rightarrow> includeLinks | None \<Rightarrow> [])
                 elements (snd result), t')))"

definition get_query ::
  "(string \<times> EntityRelationship) list \<Rightarrow> jsval \<Rightarrow> QueryOptions \<Rightarrow> jsval \<Rightarrow> query" where
  "get_query relationships id' options filt =
     (let includeRelationships = values_of (getInclude relationships options relationship)
      in push_id
           \<lparr>limit_q = None, offset_q = None,
            where_q = pickBy_notNull (object_spread [(''id'', id')] filt),
            attributes_q = fieldsFor_self options,
            order_q = None,
            include_q = Some includeRelationships\<rparr>)"

definition get ::
  "'c env \<Rightarrow> (string \<times> EntityRelationship) list \<Rightarrow> string \<Rightarrow> jsval \<Rightarrow> QueryOptions \<Rightarrow> jsval
     \<Rightarrow> table \<Rightarrow> (error + resource option) \<times> table" where
  "get e relationships url id' options filt t =
     (let includeRelationships = values_of (getInclude relationships options relationship);
          (result, t') = model_findOne e (get_query relationships id' options filt) t
      in case result of
           None \<Rightarrow> (Inr None, t')
         | Some r \<Rightarrow>
             (let resource = Resource (url @ ''/'' @ js_toString id') r
              in if includeRelationships \<noteq> []
                 then (andThen
                         (convertAndFlatten e
                            (case getInclude relationships options link of
                               Some includeLinks \<Rightarrow> includeLinks | None \<Rightarrow> [])
                            resource)
                         (\<lambda>res. Inr (Some res)), t')
                 else (Inr (Some resource), t')))"

definition create ::
  "'c env \<Rightarrow> string \<Rightarrow> row \<Rightarrow> jsval \<Rightarrow> table \<Rightarrow> (error + resource) \<times> table" where
  "create e url payload_attributes constraints t =
     (if truthy constraints \<and> \<not> test e constraints payload_attributes
      then (Inl (Error ''constraint violation''), t)
      else (let (entity, t') = model_create payload_attributes t
            in (Inr (Resource (url @ ''/<%=id>'') entity), t')))"

definition update ::
  "'c env \<Rightarrow> string \<Rightarrow> jsval \<Rightarrow> row \<Rightarrow> jsval \<Rightarrow> table \<Rightarrow> (error + resource option) \<times> table" where
  "update e url id' payload_attributes constraints t =
     (if truthy constraints \<and> \<not> test e constraints payload_attributes
      then (Inl (Error ''constraint violation''), t)
      else
        (case model_update e payload_attributes (object_spread [(''id'', id')] constraints) t of
           (CountAndRows nrows results, t') \<Rightarrow>
             if nrows = 0 then (Inr None, t')
             else (case results of
                     r # rs \<Rightarrow> (Inr (Some (Resource url r)), t')
                   | [] \<Rightarrow> (Inl TypeError, t'))
         | (CountOnly nrows, t') \<Rightarrow>
             (let (found, t'') =
                    model_findOne e
                      \<lparr>limit_q = None, offset_q = None, where_q = Some (JObj [(''id'', id')]),
                       attributes_q = None, order_q = None, include_q = None\<rparr> t'
              in if nrows = 0 then (Inr None, t'')
                 else (case found of
                         Some r \<Rightarrow> (Inr (Some (Resource url r)), t'')
                       | None \<Rightarrow> (Inl TypeError, t'')))))"

definition delete :: "'c env \<Rightarrow> jsval \<Rightarrow> jsval \<Rightarrow> table \<Rightarrow> int \<times> table" where
  "delete e id' filt t = model_destroy e (object_spread [(''id'', id')] filt) t"

subsection \<open>Examples\<close>

text \<open>
  To run the operations on examples: an engine that reads a field condition as equality
  and returns the matching rows as they are, a constraint tester that reads a constraint
  map the same way, a collection that is the list of its elements with the count, the
  query options of a request without parameters, and a table with one row. The patterns
  of the examples are ASCII strings, on which lower-casing folds the letters
  \<^verbatim>\<open>A\<close> to \<^verbatim>\<open>Z\<close> and keeps every other character.
\<close>

definition field_equals :: "string \<Rightarrow> jsval \<Rightarrow> row \<Rightarrow> bool" where
  "field_equals k v r = (map_of r k = Some v)"

definition ascii_lower :: "string \<Rightarrow> string" where
  "ascii_lower s =
     map (\<lambda>c. let n = (of_char c :: nat) in if 65 \<le> n \<and> n \<le> 90 then char_of (n + 32) else c) s"

definition example_env :: "(resource list \<times> int) env" where
  "example_env =
     \<lparr>cond = field_equals, paged = (\<lambda>q rs. rs), test = where_holds field_equals,
      lowerCase = ascii_lower, convertAndFlatten = (\<lambda>l r. Inr r),
      assembleList = (\<lambda>url options includeLinks elements count. Inr (elements, count))\<rparr>"

definition example_options :: QueryOptions where
  "example_options =
     \<lparr>page_o = \<lparr>page_number = 1, page_size = 10\<rparr>, sort_o = None, fieldsFor_self = None,
      filter_o = JUndefined, include_o = None\<rparr>"

definition example_table :: table where
  "example_table =
     \<lparr>rows = [[(''id'', JNum 5), (''name'', JStr ''Wilma''), (''groupId'', JNum 1)]],
      nextId = 6, returning = True, calls = []\<rparr>"


section \<open>Properties of the filter translator\<close>

subsection \<open>Reading and writing properties\<close>

lemma getprop_JObj_mem:
  "distinct (map fst kvs) \<Longrightarrow> (k, v) \<in> set kvs \<Longrightarrow> getprop (JObj kvs) k = v"
  by (simp add: getprop_def)

lemma getprop_JObj_absent:
  "k \<notin> fst ` set kvs \<Longrightarrow> getprop (JObj kvs) k = JUndefined"
  by (simp add: getprop_def map_of_eq_None_iff[THEN iffD2])

lemma update_present_map:
  "distinct (map fst kvs) \<Longrightarrow> k \<in> fst ` set kvs \<Longrightarrow>
   AList.update k x kvs = map (\<lambda>(k', v). (k', if k' = k then x else v)) kvs"
proof (induction kvs)
  case Nil
  then show ?case by simp
next
  case (Cons a kvs)
  obtain k0 v0 where a: "a = (k0, v0)" by (cases a)
  show ?case
  proof (cases "k0 = k")
    case True
    with Cons.prems a have "k \<notin> fst ` set kvs" by simp
    then have "map (\<lambda>(k', v). (k', if k' = k then x else v)) kvs = kvs"
      by (induction kvs) auto
    with True a show ?thesis by simp
  next
    case False
    with Cons a show ?thesis by simp
  qed
qed

lemma mapM_all_Inr:
  "(\<And>x. x \<in> set xs \<Longrightarrow> f x = Inr (g x)) \<Longrightarrow> mapM f xs = Inr (map g xs)"
  by (induction xs) simp_all

lemma rewrite_leaf_not_plain: "\<not> isPlainObject v \<Longrightarrow> rewrite_leaf lc k v = v"
  by (cases v) simp_all

lemma like_leaf_shape:
  assumes "leaf_value v" "isPlainObject v" "truthy (getprop v ''$like'')"
  shows "\<exists>p. v = JObj [(''$like'', JStr p)] \<and> p \<noteq> []"
proof -
  from assms(2) obtain ops where v: "v = JObj ops" by (cases v) simp_all
  with assms have len: "length ops \<le> 1" and str: "isString (getprop v ''$like'')"
    by (simp_all add: leaf_value_def)
  from assms(3) v have "ops \<noteq> []" by (auto simp: getprop_def)
  with len obtain op arg where ops: "ops = [(op, arg)]"
    by (cases ops) auto
  with assms(3) v have op: "op = ''$like''" by (auto simp: getprop_def split: if_splits)
  with ops v have arg: "getprop v ''$like'' = arg" by (simp add: getprop_def)
  with str obtain p where p: "arg = JStr p" by (cases arg) simp_all
  with assms(3) arg have "p \<noteq> []" by simp
  with v ops op p show ?thesis by simp
qed

lemma rewrite_leaf_unchanged:
  assumes "\<not> (isPlainObject v \<and> truthy (getprop v ''$like''))"
  shows "rewrite_leaf lc k v = v"
proof (cases "isPlainObject v")
  case False
  then show ?thesis by (rule rewrite_leaf_not_plain)
next
  case True
  with assms have nl: "\<not> truthy (getprop v ''$like'')" by simp
  from True obtain ops where v: "v = JObj ops" by (cases v) simp_all
  show ?thesis
  proof (cases ops)
    case Nil
    with v show ?thesis by simp
  next
    case (Cons a rest)
    obtain op arg where a: "a = (op, arg)" by (cases a)
    show ?thesis
    proof (cases rest)
      case Nil
      with nl v Cons a show ?thesis
        by (cases arg) (auto simp: getprop_def)
    next
      case (Cons b rest')
      with v \<open>ops = a # rest\<close> a show ?thesis by (cases arg) simp_all
    qed
  qed
qed

lemma for_k_in_step:
  assumes "leaf_value (getprop filt k)"
  shows "for_k_in lc (k # ks) filt =
           for_k_in lc ks (if isPlainObject (getprop filt k) \<and> truthy (getprop (getprop filt k) ''$like'')
                        then setprop filt k (rewrite_leaf lc k (getprop filt k)) else filt)"
proof (cases "isPlainObject (getprop filt k) \<and> truthy (getprop (getprop filt k) ''$like'')")
  case True
  with assms obtain p where p: "getprop filt k = JObj [(''$like'', JStr p)]" "p \<noteq> []"
    using like_leaf_shape by blast
  then show ?thesis
    by (simp add: getprop_JObj_mem like_comparison_def)
next
  case False
  with assms show ?thesis
    by (auto simp: leaf_value_def Let_def)
qed


lemma for_k_in_JObj:
  assumes "distinct (map fst kvs)" "distinct ks" "set ks \<subseteq> fst ` set kvs"
    and "\<And>k v. (k, v) \<in> set kvs \<Longrightarrow> k \<in> set ks \<Longrightarrow> leaf_value v"
  shows "for_k_in lc ks (JObj kvs) =
           Inr (JObj (map (\<lambda>(k, v). (k, if k \<in> set ks then rewrite_leaf lc k v else v)) kvs))"
  using assms
proof (induction ks arbitrary: kvs)
  case Nil
  then show ?case by simp
next
  case (Cons k ks)
  let ?g = "\<lambda>(k', x). (k', if k' = k then rewrite_leaf lc k' x else x)"
  let ?kvs' = "map ?g kvs"
  from Cons.prems(3) obtain v where v: "(k, v) \<in> set kvs" by auto
  with Cons.prems(1) have gp: "getprop (JObj kvs) k = v" by (rule getprop_JObj_mem)
  have lv: "leaf_value v" using Cons.prems(4)[OF v] by simp
  have same: "map (\<lambda>(k', x). (k', if k' = k then rewrite_leaf lc k v else x)) kvs = ?kvs'"
  proof (rule map_cong[OF refl])
    fix e assume e: "e \<in> set kvs"
    obtain k' x where kx: "e = (k', x)" by (cases e)
    have "k' = k \<Longrightarrow> x = v"
      using Cons.prems(1) e v kx by (metis eq_key_imp_eq_value)
    then show "(case e of (k', x) \<Rightarrow> (k', if k' = k then rewrite_leaf lc k v else x)) = ?g e"
      using kx by auto
  qed
  have st: "for_k_in lc (k # ks) (JObj kvs) =
              for_k_in lc ks (if isPlainObject v \<and> truthy (getprop v ''$like'')
                           then setprop (JObj kvs) k (rewrite_leaf lc k v) else JObj kvs)"
    using for_k_in_step[where filt="JObj kvs" and k=k and ks=ks and lc=lc] lv unfolding gp by blast
  have step: "for_k_in lc (k # ks) (JObj kvs) = for_k_in lc ks (JObj ?kvs')"
  proof (cases "isPlainObject v \<and> truthy (getprop v ''$like'')")
    case True
    have "setprop (JObj kvs) k (rewrite_leaf lc k v) = JObj ?kvs'"
      using update_present_map[OF Cons.prems(1), of k "rewrite_leaf lc k v"] v same
      by (simp add: image_iff) force
    with True st show ?thesis by (simp only: if_True simp_thms)
  next
    case False
    then have "rewrite_leaf lc k v = v" by (rule rewrite_leaf_unchanged)
    then have "map (\<lambda>(k', x). (k', if k' = k then rewrite_leaf lc k v else x)) kvs =
               map (\<lambda>(k', x). (k', if k' = k then v else x)) kvs"
      by (simp only:)
    with same have "?kvs' = map (\<lambda>(k', x). (k', if k' = k then v else x)) kvs"
      by (simp only:)
    also have "\<dots> = kvs"
    proof (rule map_idI)
      fix e assume e: "e \<in> set kvs"
      obtain k' x where kx: "e = (k', x)" by (cases e)
      have "k' = k \<Longrightarrow> x = v"
        using Cons.prems(1) e v kx by (metis eq_key_imp_eq_value)
      then show "(case e of (k', x) \<Rightarrow> (k', if k' = k then v else x)) = e"
        using kx by auto
    qed
    finally have "?kvs' = kvs" .
    with False st show ?thesis by (simp only: if_False simp_thms)
  qed
  have fst': "map fst ?kvs' = map fst kvs" by (induction kvs) auto
  have d': "distinct (map fst ?kvs')" using Cons.prems(1) by (simp only: fst')
  have dk: "distinct ks" and kn: "k \<notin> set ks" using Cons.prems(2) by simp_all
  have sub: "set ks \<subseteq> fst ` set ?kvs'"
  proof -
    have "set (map fst ?kvs') = set (map fst kvs)" by (simp only: fst')
    then have img: "fst ` set ?kvs' = fst ` set kvs" by (simp only: set_map)
    from Cons.prems(3) have "set ks \<subseteq> fst ` set kvs" by simp
    then show ?thesis by (simp only: img)
  qed
  have lv': "\<And>k' x. (k', x) \<in> set ?kvs' \<Longrightarrow> k' \<in> set ks \<Longrightarrow> leaf_value x"
  proof -
    fix k' x assume m: "(k', x) \<in> set ?kvs'" and ks: "k' \<in> set ks"
    from ks kn have "k' \<noteq> k" by auto
    with m have "(k', x) \<in> set kvs" by auto
    with ks show "leaf_value x" using Cons.prems(4) by simp
  qed
  have "for_k_in lc ks (JObj ?kvs') =
          Inr (JObj (map (\<lambda>(k, v). (k, if k \<in> set ks then rewrite_leaf lc k v else v)) ?kvs'))"
    using Cons.IH[OF d' dk sub lv'] by simp
  also have "map (\<lambda>(k, v). (k, if k \<in> set ks then rewrite_leaf lc k v else v)) ?kvs' =
             map (\<lambda>(k', v). (k', if k' \<in> set (k # ks) then rewrite_leaf lc k' v else v)) kvs"
    using kn by (induction kvs) auto
  finally show ?case using step by simp
qed

lemma for_k_in_all:
  assumes "distinct (map fst kvs)"
    and "\<And>k v. (k, v) \<in> set kvs \<Longrightarrow> leaf_value v"
  shows "for_k_in lc (map fst kvs) (JObj kvs) = Inr (JObj (map (\<lambda>(k, v). (k, rewrite_leaf lc k v)) kvs))"
proof -
  have "for_k_in lc (map fst kvs) (JObj kvs) =
          Inr (JObj (map (\<lambda>(k, v). (k, if k \<in> set (map fst kvs) then rewrite_leaf lc k v else v)) kvs))"
    using assms by (intro for_k_in_JObj) auto
  also have "map (\<lambda>(k, v). (k, if k \<in> set (map fst kvs) then rewrite_leaf lc k v else v)) kvs =
             map (\<lambda>(k, v). (k, rewrite_leaf lc k v)) kvs"
    by (rule map_cong[OF refl]) force
  finally show ?thesis .
qed


lemma map_fst_entrywise: "map fst (map (\<lambda>(k, v). (k, h k v)) kvs) = map fst kvs"
  by (induction kvs) auto

lemma combinator_children:
  assumes d: "distinct (map fst kvs)"
    and ch: "\<And>x. (K, x) \<in> set kvs \<Longrightarrow> \<exists>cs. x = JArr cs \<and> (\<forall>c\<in>set cs. cb c = Inr (g c))"
  shows "(if truthy (getprop (JObj kvs) K)
          then andThen (array_map cb (getprop (JObj kvs) K)) (\<lambda>v. Inr (setprop (JObj kvs) K v))
          else Inr (JObj kvs)) =
         Inr (JObj (map (\<lambda>(k, v). (k, if k = K then (case v of JArr cs \<Rightarrow> JArr (map g cs) | _ \<Rightarrow> v) else v)) kvs))"
proof (cases "K \<in> fst ` set kvs")
  case False
  then have "getprop (JObj kvs) K = JUndefined" by (rule getprop_JObj_absent)
  moreover have "map (\<lambda>(k, v). (k, if k = K then (case v of JArr cs \<Rightarrow> JArr (map g cs) | _ \<Rightarrow> v) else v)) kvs = kvs"
    using False by (intro map_idI) force
  ultimately show ?thesis by simp
next
  case True
  then obtain x where x: "(K, x) \<in> set kvs" by auto
  with ch obtain cs where cs: "x = JArr cs" "\<forall>c\<in>set cs. cb c = Inr (g c)" by blast
  from d x have gp: "getprop (JObj kvs) K = JArr cs" unfolding cs(1) by (rule getprop_JObj_mem)
  have mm: "mapM cb cs = Inr (map g cs)" using cs(2) by (intro mapM_all_Inr) simp
  have "setprop (JObj kvs) K (JArr (map g cs)) =
          JObj (map (\<lambda>(k', v). (k', if k' = K then JArr (map g cs) else v)) kvs)"
    using update_present_map[OF d True] by simp
  also have "map (\<lambda>(k', v). (k', if k' = K then JArr (map g cs) else v)) kvs =
             map (\<lambda>(k, v). (k, if k = K then (case v of JArr cs \<Rightarrow> JArr (map g cs) | _ \<Rightarrow> v) else v)) kvs"
  proof (rule map_cong[OF refl])
    fix e assume e: "e \<in> set kvs"
    obtain k' v where kv: "e = (k', v)" by (cases e)
    have "k' = K \<Longrightarrow> v = JArr cs"
      using d e x kv cs(1) by (metis eq_key_imp_eq_value)
    then show "(case e of (k', v) \<Rightarrow> (k', if k' = K then JArr (map g cs) else v)) =
               (case e of (k, v) \<Rightarrow> (k, if k = K then (case v of JArr cs \<Rightarrow> JArr (map g cs) | _ \<Rightarrow> v) else v))"
      using kv by auto
  qed
  finally show ?thesis using gp mm by simp
qed


lemma case_JArr_ex:
  "(case x of JArr cs \<Rightarrow> P cs | _ \<Rightarrow> False) = (\<exists>cs. x = JArr cs \<and> P cs)"
  by (cases x) simp_all

lemma filter_tree_Suc:
  "filter_tree (Suc n) v =
     (\<exists>kvs. v = JObj kvs \<and> distinct (map fst kvs) \<and>
        (\<forall>(k, x)\<in>set kvs. k \<noteq> ''$not'' \<and>
           (if k = ''$and'' \<or> k = ''$or''
            then (\<exists>cs. x = JArr cs \<and> (\<forall>c\<in>set cs. filter_tree n c))
            else leaf_value x)))"
proof (cases v)
  case (JObj kvs)
  then show ?thesis
    by (simp add: list_all_iff case_JArr_ex del: filter_tree.simps add: filter_tree.simps(2)[of n "JObj kvs"])
qed simp_all


text \<open>A tree that fits a call stack fits every deeper one.\<close>

lemma filter_tree_deeper: "filter_tree n v \<Longrightarrow> filter_tree (Suc n) v"
proof (induction n arbitrary: v)
  case 0
  then show ?case by simp
next
  case (Suc n)
  from Suc.prems obtain kvs where v: "v = JObj kvs" and d: "distinct (map fst kvs)"
    and ent: "\<forall>(k, x)\<in>set kvs. k \<noteq> ''$not'' \<and>
           (if k = ''$and'' \<or> k = ''$or''
            then (\<exists>cs. x = JArr cs \<and> (\<forall>c\<in>set cs. filter_tree n c))
            else leaf_value x)"
    unfolding filter_tree_Suc by blast
  have "\<forall>(k, x)\<in>set kvs. k \<noteq> ''$not'' \<and>
           (if k = ''$and'' \<or> k = ''$or''
            then (\<exists>cs. x = JArr cs \<and> (\<forall>c\<in>set cs. filter_tree (Suc n) c))
            else leaf_value x)"
  proof (rule ballI)
    fix e assume e: "e \<in> set kvs"
    obtain k x where kx: "e = (k, x)" by (cases e)
    from bspec[OF ent e] kx have h: "k \<noteq> ''$not'' \<and>
           (if k = ''$and'' \<or> k = ''$or''
            then (\<exists>cs. x = JArr cs \<and> (\<forall>c\<in>set cs. filter_tree n c))
            else leaf_value x)" by simp
    show "case e of (k, x) \<Rightarrow> k \<noteq> ''$not'' \<and>
           (if k = ''$and'' \<or> k = ''$or''
            then (\<exists>cs. x = JArr cs \<and> (\<forall>c\<in>set cs. filter_tree (Suc n) c))
            else leaf_value x)"
    proof (cases "k = ''$and'' \<or> k = ''$or''")
      case True
      with h obtain cs where "x = JArr cs" "\<forall>c\<in>set cs. filter_tree n c" by auto
      with Suc.IH have "\<exists>cs. x = JArr cs \<and> (\<forall>c\<in>set cs. filter_tree (Suc n) c)" by blast
      with h True kx show ?thesis by simp
    next
      case False
      with h kx show ?thesis by simp
    qed
  qed
  with v d show ?case unfolding filter_tree_Suc[of "Suc n"] by blast
qed

lemma filter_tree_mono: "filter_tree n v \<Longrightarrow> n \<le> m \<Longrightarrow> filter_tree m v"
  by (induction m) (auto simp: le_Suc_eq dest: filter_tree_deeper simp del: filter_tree.simps)

lemma getprop_JObj_absent':
  "k \<notin> set (map fst kvs) \<Longrightarrow> getprop (JObj kvs) k = JUndefined"
  by (simp add: getprop_JObj_absent)

lemma translateFilter_refines:
  assumes "filter_tree n filt"
  shows "translateFilter lc n filt extra =
           Inr (if truthy extra then JObj [(''$and'', JArr [rewritten lc filt, extra])]
                else rewritten lc filt, rewritten lc filt)"
  using assms
proof (induction n arbitrary: filt extra)
  case 0
  then show ?case by simp
next
  case (Suc n)
  from Suc.prems obtain kvs where filt: "filt = JObj kvs" and d: "distinct (map fst kvs)"
    and ent: "\<forall>(k, x)\<in>set kvs. k \<noteq> ''$not'' \<and>
           (if k = ''$and'' \<or> k = ''$or''
            then (\<exists>cs. x = JArr cs \<and> (\<forall>c\<in>set cs. filter_tree n c))
            else leaf_value x)"
    unfolding filter_tree_Suc by blast
  have ent': "k \<noteq> ''$not'' \<and>
           (if k = ''$and'' \<or> k = ''$or''
            then (\<exists>cs. x = JArr cs \<and> (\<forall>c\<in>set cs. filter_tree n c))
            else leaf_value x)" if "(k, x) \<in> set kvs" for k x
    using bspec[OF ent that] by simp
  have ent_comb: "\<exists>cs. x = JArr cs \<and> (\<forall>c\<in>set cs. filter_tree n c)"
    if "(k, x) \<in> set kvs" "k = ''$and'' \<or> k = ''$or''" for k x
    using ent'[OF that(1)] that(2) by (simp only: if_True simp_thms)
  have ent_leaf: "leaf_value x"
    if "(k, x) \<in> set kvs" "\<not> (k = ''$and'' \<or> k = ''$or'')" for k x
    using ent'[OF that(1)] that(2) by (simp only: if_False simp_thms)
  have ent_not: "k \<noteq> ''$not''" if "(k, x) \<in> set kvs" for k x
    using ent'[OF that] by (rule conjunct1)
  let ?cb = "\<lambda>c. andThen (translateFilter lc n c JUndefined) (\<lambda>r. Inr (fst r))"
  have cb: "?cb c = Inr (rewritten lc c)" if "filter_tree n c" for c
    using Suc.IH[OF that, of JUndefined] by simp
  let ?h = "\<lambda>K. (\<lambda>(k, v). (k, if k = K then (case v of JArr cs \<Rightarrow> JArr (map (rewritten lc) cs) | _ \<Rightarrow> v) else v))"
  let ?kvs1 = "map (?h ''$and'') kvs"
  let ?kvs2 = "map (?h ''$or'') ?kvs1"
  have s1: "(if truthy (getprop (JObj kvs) ''$and'')
             then andThen (array_map ?cb (getprop (JObj kvs) ''$and''))
                    (\<lambda>v. Inr (setprop (JObj kvs) ''$and'' v))
             else Inr (JObj kvs)) = Inr (JObj ?kvs1)"
  proof (rule combinator_children[OF d])
    fix x assume "(''$and'', x) \<in> set kvs"
    then obtain cs where "x = JArr cs" "\<forall>c\<in>set cs. filter_tree n c"
      using ent_comb by blast
    with cb show "\<exists>cs. x = JArr cs \<and> (\<forall>c\<in>set cs. ?cb c = Inr (rewritten lc c))" by blast
  qed
  have f1: "map fst ?kvs1 = map fst kvs" by (rule map_fst_entrywise)
  have d1: "distinct (map fst ?kvs1)" using d by (simp only: f1)
  have s2: "(if truthy (getprop (JObj ?kvs1) ''$or'')
             then andThen (array_map ?cb (getprop (JObj ?kvs1) ''$or''))
                    (\<lambda>v. Inr (setprop (JObj ?kvs1) ''$or'' v))
             else Inr (JObj ?kvs1)) = Inr (JObj ?kvs2)"
  proof (rule combinator_children[OF d1])
    fix x assume "(''$or'', x) \<in> set ?kvs1"
    then have "(''$or'', x) \<in> set kvs" by auto
    then obtain cs where "x = JArr cs" "\<forall>c\<in>set cs. filter_tree n c"
      using ent_comb by blast
    with cb show "\<exists>cs. x = JArr cs \<and> (\<forall>c\<in>set cs. ?cb c = Inr (rewritten lc c))" by blast
  qed
  have f2: "map fst ?kvs2 = map fst kvs" using map_fst_entrywise[of _ ?kvs1] f1 by (simp only:)
  have d2: "distinct (map fst ?kvs2)" using d by (simp only: f2)
  have "''$not'' \<notin> set (map fst kvs)" using ent_not by force
  then have "''$not'' \<notin> set (map fst ?kvs2)" by (simp only: f2 simp_thms)
  then have n3: "getprop (JObj ?kvs2) ''$not'' = JUndefined" by (rule getprop_JObj_absent')
  have lv2: "leaf_value v" if "(k, v) \<in> set ?kvs2" for k v
  proof -
    from that obtain v0 where v0: "(k, v0) \<in> set kvs"
      and v: "v = (if k = ''$and'' \<or> k = ''$or'' then (case v0 of JArr cs \<Rightarrow> JArr (map (rewritten lc) cs) | _ \<Rightarrow> v0) else v0)"
      by auto
    show ?thesis
    proof (cases "k = ''$and'' \<or> k = ''$or''")
      case True
      with v0 obtain cs where "v0 = JArr cs" using ent_comb by blast
      with v True show ?thesis by (simp add: leaf_value_def)
    next
      case False
      with v have "v = v0" by (simp only: if_False)
      with ent_leaf[OF v0 False] show ?thesis by (simp only:)
    qed
  qed
  have s4: "for_k_in lc (map fst (props (JObj ?kvs2))) (JObj ?kvs2) =
              Inr (JObj (map (\<lambda>(k, v). (k, rewrite_leaf lc k v)) ?kvs2))"
    unfolding props.simps using d2 lv2 by (rule for_k_in_all)
  have fin: "JObj (map (\<lambda>(k, v). (k, rewrite_leaf lc k v)) ?kvs2) = rewritten lc (JObj kvs)"
  proof -
    have "map (\<lambda>(k, v). (k, rewrite_leaf lc k v)) ?kvs2 =
          map (\<lambda>(k, v). (k, if k = ''$and'' \<or> k = ''$or''
                 then (case v of JArr cs \<Rightarrow> JArr (map (rewritten lc) cs) | _ \<Rightarrow> v)
                 else rewrite_leaf lc k v)) kvs"
      unfolding map_map
    proof (rule map_cong[OF refl])
      fix e assume e: "e \<in> set kvs"
      obtain k v where kv: "e = (k, v)" by (cases e)
      show "((\<lambda>(k, v). (k, rewrite_leaf lc k v)) \<circ> (?h ''$or'' \<circ> ?h ''$and'')) e =
            (case e of (k, v) \<Rightarrow> (k, if k = ''$and'' \<or> k = ''$or''
                 then (case v of JArr cs \<Rightarrow> JArr (map (rewritten lc) cs) | _ \<Rightarrow> v)
                 else rewrite_leaf lc k v))"
      proof (cases "k = ''$and'' \<or> k = ''$or''")
        case True
        with e kv obtain cs where "v = JArr cs" using ent_comb by blast
        with True kv show ?thesis by auto
      next
        case False
        with kv show ?thesis by simp
      qed
    qed
    then show ?thesis by simp
  qed
  have body: "translateFilter lc (Suc n) (JObj kvs) extra =
          (if truthy extra
           then Inr (JObj [(''$and'', JArr [rewritten lc (JObj kvs), extra])], rewritten lc (JObj kvs))
           else Inr (rewritten lc (JObj kvs), rewritten lc (JObj kvs)))"
    by (simp only: translateFilter.simps truthy.simps not_True_eq_False if_False s1 s2 n3 s4
          andThen.simps fin)
  show ?case
    by (cases "truthy extra") (simp_all only: body filt if_True if_False)
qed


lemma truthy_getprop: "truthy (getprop v k) \<Longrightarrow> truthy v"
  by (cases v) (auto simp: getprop_def)

lemma map_of_zip_update:
  "length ks = length xs \<Longrightarrow> k' \<noteq> k \<Longrightarrow>
   map_of (zip ks (map (\<lambda>(k'', y). if k'' = k then x else y) (zip ks xs))) k' = map_of (zip ks xs) k'"
  by (induction ks xs rule: list_induct2) auto

lemma getprop_setprop_other: "k' \<noteq> k \<Longrightarrow> getprop (setprop v k x) k' = getprop v k'"
proof (cases v)
  case (JArr xs)
  assume "k' \<noteq> k"
  then show ?thesis using JArr map_of_zip_update[of "map show_nat [0..<length xs]" xs k' k x]
    by (simp add: getprop_def)
qed (simp_all add: getprop_def update_conv')

lemma truthy_setprop: "truthy v \<Longrightarrow> truthy (setprop v k x)"
  by (cases v) auto

lemma not_branch_raises:
  "truthy (getprop filt ''$not'') \<Longrightarrow> \<exists>e. translateFilter lc stack filt extra = Inl e"
proof (induction stack arbitrary: filt extra)
  case 0
  then show ?case by simp
next
  case (Suc stack)
  let ?cb = "\<lambda>c. andThen (translateFilter lc stack c JUndefined) (\<lambda>r. Inr (fst r))"
  have t: "truthy filt" using Suc.prems by (rule truthy_getprop)
  define r1 where "r1 = (if truthy (getprop filt ''$and'')
             then andThen (array_map ?cb (getprop filt ''$and''))
                    (\<lambda>v. Inr (setprop filt ''$and'' v))
             else Inr filt)"
  show ?case
  proof (cases r1)
    case (Inl e)
    then show ?thesis using t unfolding r1_def by simp
  next
    case (Inr f1)
    have n1: "truthy (getprop f1 ''$not'')"
      using Inr Suc.prems unfolding r1_def
      by (cases "array_map ?cb (getprop filt ''$and'')")
         (auto simp: getprop_setprop_other split: if_splits)
    define r2 where "r2 = (if truthy (getprop f1 ''$or'')
             then andThen (array_map ?cb (getprop f1 ''$or''))
                    (\<lambda>v. Inr (setprop f1 ''$or'' v))
             else Inr f1)"
    show ?thesis
    proof (cases r2)
      case (Inl e)
      then show ?thesis using t \<open>r1 = Inr f1\<close> unfolding r1_def r2_def by simp
    next
      case (Inr f2)
      have n2: "truthy (getprop f2 ''$not'')"
        using Inr n1 unfolding r2_def
        by (cases "array_map ?cb (getprop f1 ''$or'')")
           (auto simp: getprop_setprop_other split: if_splits)
      from Suc.IH[OF n2] obtain e where "translateFilter lc stack f2 JUndefined = Inl e" by blast
      then show ?thesis using t \<open>r1 = Inr f1\<close> Inr n2 unfolding r1_def r2_def by simp
    qed
  qed
qed


lemma andThen_assoc: "andThen (andThen m f) g = andThen m (\<lambda>x. andThen (f x) g)"
  by (cases m) simp_all

lemma andThen_if: "andThen (if b then m else m') g = (if b then andThen m g else andThen m' g)"
  by simp

lemma translateFilter_extra:
  "truthy filt \<Longrightarrow>
   translateFilter lc stack filt extra =
     andThen (translateFilter lc stack filt JUndefined)
       (\<lambda>r. Inr (if truthy extra then JObj [(''$and'', JArr [fst r, extra])] else fst r, snd r))"
proof (cases stack)
  case 0
  then show ?thesis by simp
next
  case (Suc n)
  assume "truthy filt"
  then show ?thesis unfolding Suc
    by (cases "truthy extra")
       (simp_all add: andThen_assoc andThen_if del: for_k_in.simps split del: if_split cong: if_cong)
qed

lemma rewritten_changes_like_leaf:
  assumes "(field, JObj [(''$like'', JStr p)]) \<in> set kvs" and "p \<noteq> []"
    and "field \<noteq> ''$and''" and "field \<noteq> ''$or''"
  shows "rewritten lc (JObj kvs) \<noteq> JObj kvs"
proof
  let ?g = "\<lambda>(k, v). (k, if k = ''$and'' \<or> k = ''$or''
            then (case v of JArr cs \<Rightarrow> JArr (map (rewritten lc) cs) | _ \<Rightarrow> v)
            else rewrite_leaf lc k v)"
  assume "rewritten lc (JObj kvs) = JObj kvs"
  then have "map ?g kvs = map id kvs" by simp
  then have "\<forall>x\<in>set kvs. ?g x = id x" by (simp only: map_eq_conv)
  with assms(1) have "?g (field, JObj [(''$like'', JStr p)]) = (field, JObj [(''$like'', JStr p)])"
    by fastforce
  with assms(2,3,4) show False
    by (simp add: like_comparison_def Sequelize_where_def)
qed

lemma rewritten_keeps_scalars:
  assumes "\<And>k v. (k, v) \<in> set kvs \<Longrightarrow> \<not> isPlainObject v \<and> k \<noteq> ''$and'' \<and> k \<noteq> ''$or''"
  shows "rewritten lc (JObj kvs) = JObj kvs"
proof -
  have "map (\<lambda>(k, v). (k, if k = ''$and'' \<or> k = ''$or''
            then (case v of JArr cs \<Rightarrow> JArr (map (rewritten lc) cs) | _ \<Rightarrow> v)
            else rewrite_leaf lc k v)) kvs = kvs"
  proof (rule map_idI)
    fix x assume x: "x \<in> set kvs"
    obtain k v where kv: "x = (k, v)" by (cases x)
    with x assms have "\<not> isPlainObject v" "k \<noteq> ''$and''" "k \<noteq> ''$or''" by blast+
    then show "(case x of (k, v) \<Rightarrow> (k, if k = ''$and'' \<or> k = ''$or''
            then (case v of JArr cs \<Rightarrow> JArr (map (rewritten lc) cs) | _ \<Rightarrow> v)
            else rewrite_leaf lc k v)) = x"
      using kv by (simp add: rewrite_leaf_not_plain)
  qed
  then show ?thesis by simp
qed

lemma filter_tree_JObj: "filter_tree stack f \<Longrightarrow> \<exists>kvs. f = JObj kvs"
  by (cases stack; cases f) simp_all

lemma push_id_attrs:
  "attributes_q (push_id q) =
     map_option (\<lambda>P. if ''id'' \<in> set P then P else P @ [''id'']) (attributes_q q)"
  by (simp add: push_id_def split: option.splits)

subsection \<open>Compound leaves in trees without \<^verbatim>\<open>$not\<close>\<close>

text \<open>
  Where no \<^verbatim>\<open>$not\<close> occurs, the loop over the leaves is reached and raises its error
  at a leaf with more than one key: on a tree whose leaves are single-operator or
  compound, translation raises \<open>too_complex\<close> exactly when some leaf is compound.
\<close>

lemma loose_tree_Suc:
  "loose_tree (Suc n) v =
     (\<exists>kvs. v = JObj kvs \<and> distinct (map fst kvs) \<and>
        (\<forall>(k, x)\<in>set kvs. k \<noteq> ''$not'' \<and>
           (if k = ''$and'' \<or> k = ''$or''
            then (\<exists>cs. x = JArr cs \<and> (\<forall>c\<in>set cs. loose_tree n c))
            else leaf_value x \<or> compound_leaf x)))"
proof (cases v)
  case (JObj kvs)
  then show ?thesis
    by (simp add: list_all_iff case_JArr_ex del: loose_tree.simps add: loose_tree.simps(2)[of n "JObj kvs"])
qed simp_all

lemma for_k_in_JObj_step:
  assumes d: "distinct (map fst kvs)" and v: "(k, v) \<in> set kvs" and lv: "leaf_value v"
  shows "for_k_in lc (k # ks) (JObj kvs) =
           for_k_in lc ks (JObj (map (\<lambda>(k', x). (k', if k' = k then rewrite_leaf lc k' x else x)) kvs))"
proof -
  let ?g = "\<lambda>(k', x). (k', if k' = k then rewrite_leaf lc k' x else x)"
  let ?kvs' = "map ?g kvs"
  from d v have gp: "getprop (JObj kvs) k = v" by (rule getprop_JObj_mem)
  have same: "map (\<lambda>(k', x). (k', if k' = k then rewrite_leaf lc k v else x)) kvs = ?kvs'"
  proof (rule map_cong[OF refl])
    fix e assume e: "e \<in> set kvs"
    obtain k' x where kx: "e = (k', x)" by (cases e)
    have "k' = k \<Longrightarrow> x = v"
      using d e v kx by (metis eq_key_imp_eq_value)
    then show "(case e of (k', x) \<Rightarrow> (k', if k' = k then rewrite_leaf lc k v else x)) = ?g e"
      using kx by auto
  qed
  have st: "for_k_in lc (k # ks) (JObj kvs) =
              for_k_in lc ks (if isPlainObject v \<and> truthy (getprop v ''$like'')
                           then setprop (JObj kvs) k (rewrite_leaf lc k v) else JObj kvs)"
    using for_k_in_step[where filt="JObj kvs" and k=k and ks=ks and lc=lc] lv unfolding gp by blast
  show ?thesis
  proof (cases "isPlainObject v \<and> truthy (getprop v ''$like'')")
    case True
    have "setprop (JObj kvs) k (rewrite_leaf lc k v) = JObj ?kvs'"
      using update_present_map[OF d, of k "rewrite_leaf lc k v"] v same
      by (simp add: image_iff) force
    with True st show ?thesis by (simp only: if_True simp_thms)
  next
    case False
    then have "rewrite_leaf lc k v = v" by (rule rewrite_leaf_unchanged)
    then have "map (\<lambda>(k', x). (k', if k' = k then rewrite_leaf lc k v else x)) kvs =
               map (\<lambda>(k', x). (k', if k' = k then v else x)) kvs"
      by (simp only:)
    with same have "?kvs' = map (\<lambda>(k', x). (k', if k' = k then v else x)) kvs"
      by (simp only:)
    also have "\<dots> = kvs"
    proof (rule map_idI)
      fix e assume e: "e \<in> set kvs"
      obtain k' x where kx: "e = (k', x)" by (cases e)
      have "k' = k \<Longrightarrow> x = v"
        using d e v kx by (metis eq_key_imp_eq_value)
      then show "(case e of (k', x) \<Rightarrow> (k', if k' = k then v else x)) = e"
        using kx by auto
    qed
    finally have "?kvs' = kvs" .
    with False st show ?thesis by (simp only: if_False simp_thms)
  qed
qed

lemma for_k_in_compound_head:
  assumes d: "distinct (map fst kvs)" and v: "(k, v) \<in> set kvs" and c: "compound_leaf v"
  shows "for_k_in lc (k # ks) (JObj kvs) = Inl (too_complex k)"
proof -
  from d v have gp: "getprop (JObj kvs) k = v" by (rule getprop_JObj_mem)
  with c show ?thesis by (simp add: compound_leaf_def)
qed

lemma for_k_in_compound:
  assumes "distinct (map fst kvs)" "distinct ks" "set ks \<subseteq> fst ` set kvs"
    and "\<And>k v. (k, v) \<in> set kvs \<Longrightarrow> k \<in> set ks \<Longrightarrow> leaf_value v \<or> compound_leaf v"
    and "\<exists>k v. (k, v) \<in> set kvs \<and> k \<in> set ks \<and> compound_leaf v"
  shows "\<exists>k. for_k_in lc ks (JObj kvs) = Inl (too_complex k)"
  using assms
proof (induction ks arbitrary: kvs)
  case Nil
  then show ?case by simp
next
  case (Cons k ks)
  let ?g = "\<lambda>(k', x). (k', if k' = k then rewrite_leaf lc k' x else x)"
  let ?kvs' = "map ?g kvs"
  from Cons.prems(3) obtain v where v: "(k, v) \<in> set kvs" by auto
  show ?case
  proof (cases "compound_leaf v")
    case True
    with for_k_in_compound_head[OF Cons.prems(1) v] show ?thesis by blast
  next
    case False
    with Cons.prems(4)[OF v] have lv: "leaf_value v" by simp
    have step: "for_k_in lc (k # ks) (JObj kvs) = for_k_in lc ks (JObj ?kvs')"
      using Cons.prems(1) v lv by (rule for_k_in_JObj_step)
    have fst': "map fst ?kvs' = map fst kvs" by (induction kvs) auto
    have d': "distinct (map fst ?kvs')" using Cons.prems(1) by (simp only: fst')
    have dk: "distinct ks" and kn: "k \<notin> set ks" using Cons.prems(2) by simp_all
    have sub: "set ks \<subseteq> fst ` set ?kvs'"
    proof -
      have "set (map fst ?kvs') = set (map fst kvs)" by (simp only: fst')
      then have img: "fst ` set ?kvs' = fst ` set kvs" by (simp only: set_map)
      from Cons.prems(3) have "set ks \<subseteq> fst ` set kvs" by simp
      then show ?thesis by (simp only: img)
    qed
    have keep: "(k', x) \<in> set ?kvs' \<longleftrightarrow> (k', x) \<in> set kvs" if "k' \<noteq> k" for k' x
      using that by (auto simp: image_iff) force
    have lv': "\<And>k' x. (k', x) \<in> set ?kvs' \<Longrightarrow> k' \<in> set ks \<Longrightarrow> leaf_value x \<or> compound_leaf x"
    proof -
      fix k' x assume m: "(k', x) \<in> set ?kvs'" and ks: "k' \<in> set ks"
      from ks kn have "k' \<noteq> k" by auto
      with m have "(k', x) \<in> set kvs" using keep by blast
      with ks show "leaf_value x \<or> compound_leaf x" using Cons.prems(4) by simp
    qed
    from Cons.prems(5) obtain k0 v0 where c0: "(k0, v0) \<in> set kvs" "k0 \<in> set (k # ks)" "compound_leaf v0"
      by blast
    have "k0 \<noteq> k"
    proof
      assume "k0 = k"
      with c0(1) v Cons.prems(1) have "v0 = v" by (metis eq_key_imp_eq_value)
      with c0(3) False show False by simp
    qed
    with c0 have "(k0, v0) \<in> set ?kvs'" "k0 \<in> set ks" using keep by auto
    with c0(3) have ex': "\<exists>k v. (k, v) \<in> set ?kvs' \<and> k \<in> set ks \<and> compound_leaf v" by blast
    from Cons.IH[OF d' dk sub lv' ex'] step show ?thesis by (simp only:)
  qed
qed

lemma mapM_first_Inl:
  assumes "\<And>x. x \<in> set xs \<Longrightarrow> (\<exists>y. f x = Inr y) \<or> (\<exists>k. f x = Inl (E k))"
    and "\<exists>x\<in>set xs. \<exists>k. f x = Inl (E k)"
  shows "\<exists>k. mapM f xs = Inl (E k)"
  using assms
proof (induction xs)
  case Nil
  then show ?case by simp
next
  case (Cons x xs)
  from Cons.prems(1)[of x] consider y where "f x = Inr y" | k where "f x = Inl (E k)" by auto
  then show ?case
  proof cases
    case 1
    with Cons.prems(2) have "\<exists>x\<in>set xs. \<exists>k. f x = Inl (E k)" by auto
    with Cons.IH Cons.prems(1) obtain k where "mapM f xs = Inl (E k)" by auto
    with 1 show ?thesis by auto
  next
    case 2
    then show ?thesis by auto
  qed
qed

lemma combinator_children_error:
  assumes d: "distinct (map fst kvs)" and x: "(K, JArr cs) \<in> set kvs"
    and m: "mapM cb cs = Inl e"
  shows "(if truthy (getprop (JObj kvs) K)
          then andThen (array_map cb (getprop (JObj kvs) K)) (\<lambda>v. Inr (setprop (JObj kvs) K v))
          else Inr (JObj kvs)) = Inl e"
proof -
  from d x have "getprop (JObj kvs) K = JArr cs" by (rule getprop_JObj_mem)
  with m show ?thesis by simp
qed

lemma entrywise_other:
  "k \<noteq> K \<Longrightarrow>
   ((k, x) \<in> set (map (\<lambda>(k', v). (k', if k' = K then H v else v)) kvs)) = ((k, x) \<in> set kvs)"
  by (induction kvs) auto

lemma leaf_value_not_plain: "\<not> isPlainObject v \<Longrightarrow> leaf_value v"
  by (simp add: leaf_value_def)

lemma compound_leaf_raises:
  assumes "loose_tree n filt" and "\<not> filter_tree n filt"
  shows "\<exists>k. translateFilter lc n filt extra = Inl (too_complex k)"
  using assms
proof (induction n arbitrary: filt extra)
  case 0
  then show ?case by simp
next
  case (Suc n)
  from Suc.prems(1) obtain kvs where filt: "filt = JObj kvs" and d: "distinct (map fst kvs)"
    and ent: "\<forall>(k, x)\<in>set kvs. k \<noteq> ''$not'' \<and>
           (if k = ''$and'' \<or> k = ''$or''
            then (\<exists>cs. x = JArr cs \<and> (\<forall>c\<in>set cs. loose_tree n c))
            else leaf_value x \<or> compound_leaf x)"
    unfolding loose_tree_Suc by blast
  have ent': "k \<noteq> ''$not'' \<and>
           (if k = ''$and'' \<or> k = ''$or''
            then (\<exists>cs. x = JArr cs \<and> (\<forall>c\<in>set cs. loose_tree n c))
            else leaf_value x \<or> compound_leaf x)" if "(k, x) \<in> set kvs" for k x
    using bspec[OF ent that] by simp
  have ent_comb: "\<exists>cs. x = JArr cs \<and> (\<forall>c\<in>set cs. loose_tree n c)"
    if "(k, x) \<in> set kvs" "k = ''$and'' \<or> k = ''$or''" for k x
    using ent'[OF that(1)] that(2) by (simp only: if_True simp_thms)
  have ent_leaf: "leaf_value x \<or> compound_leaf x"
    if "(k, x) \<in> set kvs" "\<not> (k = ''$and'' \<or> k = ''$or'')" for k x
    using ent'[OF that(1)] that(2) by (simp only: if_False simp_thms)
  have ent_not: "k \<noteq> ''$not''" if "(k, x) \<in> set kvs" for k x
    using ent'[OF that] by (rule conjunct1)
  let ?cb = "\<lambda>c. andThen (translateFilter lc n c JUndefined) (\<lambda>r. Inr (fst r))"
  have cb_ok: "?cb c = Inr (rewritten lc c)" if "filter_tree n c" for c
    using translateFilter_refines[OF that, where extra=JUndefined and lc=lc] by simp
  have cb_err: "\<exists>k. ?cb c = Inl (too_complex k)" if "loose_tree n c" "\<not> filter_tree n c" for c
    using Suc.IH[OF that, of JUndefined] by auto
  have children: "(\<forall>c\<in>set cs. filter_tree n c) \<or> (\<exists>k. mapM ?cb cs = Inl (too_complex k))"
    if "\<forall>c\<in>set cs. loose_tree n c" for cs
  proof (cases "\<forall>c\<in>set cs. filter_tree n c")
    case True
    then show ?thesis by blast
  next
    case False
    have "\<exists>k. mapM ?cb cs = Inl (too_complex k)"
    proof (rule mapM_first_Inl)
      fix c assume "c \<in> set cs"
      with that have l: "loose_tree n c" by blast
      show "(\<exists>y. ?cb c = Inr y) \<or> (\<exists>k. ?cb c = Inl (too_complex k))"
        using cb_ok[of c] cb_err[OF l] by (cases "filter_tree n c") blast+
    next
      from False obtain c where c: "c \<in> set cs" "\<not> filter_tree n c" by blast
      with that have "loose_tree n c" by blast
      from cb_err[OF this c(2)] c(1) show "\<exists>c\<in>set cs. \<exists>k. ?cb c = Inl (too_complex k)" by blast
    qed
    then show ?thesis by blast
  qed
  let ?h = "\<lambda>K. (\<lambda>(k, v). (k, if k = K then (case v of JArr cs \<Rightarrow> JArr (map (rewritten lc) cs) | _ \<Rightarrow> v) else v))"
  let ?kvs1 = "map (?h ''$and'') kvs"
  let ?kvs2 = "map (?h ''$or'') ?kvs1"
  define good where "good K \<longleftrightarrow> (\<forall>x. (K, x) \<in> set kvs \<longrightarrow> (\<exists>cs. x = JArr cs \<and> (\<forall>c\<in>set cs. filter_tree n c)))" for K
  have bad: "\<exists>cs k. (K, JArr cs) \<in> set kvs \<and> mapM ?cb cs = Inl (too_complex k)"
    if "\<not> good K" "K = ''$and'' \<or> K = ''$or''" for K
  proof -
    from that(1) obtain x where x: "(K, x) \<in> set kvs"
      and nx: "\<not> (\<exists>cs. x = JArr cs \<and> (\<forall>c\<in>set cs. filter_tree n c))"
      unfolding good_def by blast
    from ent_comb[OF x that(2)] obtain cs where cs: "x = JArr cs" "\<forall>c\<in>set cs. loose_tree n c"
      by blast
    with nx have "\<not> (\<forall>c\<in>set cs. filter_tree n c)" by blast
    with children[OF cs(2)] obtain k where "mapM ?cb cs = Inl (too_complex k)" by blast
    with x cs(1) show ?thesis by blast
  qed
  have other1: "((k, x) \<in> set ?kvs1) = ((k, x) \<in> set kvs)" if "k \<noteq> ''$and''" for k x
    using that by (rule entrywise_other)
  have other2: "((k, x) \<in> set ?kvs2) = ((k, x) \<in> set ?kvs1)" if "k \<noteq> ''$or''" for k x
    using that by (rule entrywise_other)
  have oa: "''$or'' \<noteq> ''$and''" by simp
  have f1: "map fst ?kvs1 = map fst kvs" by (rule map_fst_entrywise)
  have d1: "distinct (map fst ?kvs1)" using d by (simp only: f1)
  have f2: "map fst ?kvs2 = map fst kvs" using map_fst_entrywise[of _ ?kvs1] f1 by (simp only:)
  have d2: "distinct (map fst ?kvs2)" using d by (simp only: f2)
  have s1_ok: "(if truthy (getprop (JObj kvs) ''$and'')
             then andThen (array_map ?cb (getprop (JObj kvs) ''$and''))
                    (\<lambda>v. Inr (setprop (JObj kvs) ''$and'' v))
             else Inr (JObj kvs)) = Inr (JObj ?kvs1)" if "good ''$and''"
  proof (rule combinator_children[OF d])
    fix x assume "(''$and'', x) \<in> set kvs"
    with that obtain cs where "x = JArr cs" "\<forall>c\<in>set cs. filter_tree n c"
      unfolding good_def by blast
    with cb_ok show "\<exists>cs. x = JArr cs \<and> (\<forall>c\<in>set cs. ?cb c = Inr (rewritten lc c))" by blast
  qed
  have s2_ok: "(if truthy (getprop (JObj ?kvs1) ''$or'')
             then andThen (array_map ?cb (getprop (JObj ?kvs1) ''$or''))
                    (\<lambda>v. Inr (setprop (JObj ?kvs1) ''$or'' v))
             else Inr (JObj ?kvs1)) = Inr (JObj ?kvs2)" if "good ''$or''"
  proof (rule combinator_children[OF d1])
    fix x assume "(''$or'', x) \<in> set ?kvs1"
    then have "(''$or'', x) \<in> set kvs" using other1[OF oa, of x] by blast
    with that obtain cs where "x = JArr cs" "\<forall>c\<in>set cs. filter_tree n c"
      unfolding good_def by blast
    with cb_ok show "\<exists>cs. x = JArr cs \<and> (\<forall>c\<in>set cs. ?cb c = Inr (rewritten lc c))" by blast
  qed
  have "\<exists>k. translateFilter lc (Suc n) (JObj kvs) extra = Inl (too_complex k)"
  proof (cases "good ''$and''")
    case False
    from bad[OF False] obtain cs k where x: "(''$and'', JArr cs) \<in> set kvs"
      and m: "mapM ?cb cs = Inl (too_complex k)" by blast
    note s1 = combinator_children_error[OF d x m]
    have "translateFilter lc (Suc n) (JObj kvs) extra = Inl (too_complex k)"
      by (simp only: translateFilter.simps truthy.simps not_True_eq_False if_False s1 andThen.simps)
    then show ?thesis by blast
  next
    case ga: True
    note s1 = s1_ok[OF ga]
    show ?thesis
    proof (cases "good ''$or''")
      case False
      from bad[OF False] obtain cs k where x: "(''$or'', JArr cs) \<in> set kvs"
        and m: "mapM ?cb cs = Inl (too_complex k)" by blast
      from x have x1: "(''$or'', JArr cs) \<in> set ?kvs1"
        using other1[OF oa, of "JArr cs"] by blast
      note s2 = combinator_children_error[OF d1 x1 m]
      have "translateFilter lc (Suc n) (JObj kvs) extra = Inl (too_complex k)"
        by (simp only: translateFilter.simps truthy.simps not_True_eq_False if_False s1 s2
              andThen.simps)
      then show ?thesis by blast
    next
      case go: True
      note s2 = s2_ok[OF go]
      have "''$not'' \<notin> set (map fst kvs)" using ent_not by force
      then have "''$not'' \<notin> set (map fst ?kvs2)" by (simp only: f2 simp_thms)
      then have n3: "getprop (JObj ?kvs2) ''$not'' = JUndefined" by (rule getprop_JObj_absent')
      have origin: "\<exists>v0. (k, v0) \<in> set kvs \<and>
          v = (if k = ''$and'' \<or> k = ''$or''
               then (case v0 of JArr cs \<Rightarrow> JArr (map (rewritten lc) cs) | _ \<Rightarrow> v0) else v0)"
        if "(k, v) \<in> set ?kvs2" for k v
        using that by auto
      have lv2: "leaf_value v \<or> compound_leaf v" if "(k, v) \<in> set ?kvs2" for k v
      proof -
        from origin[OF that] obtain v0 where v0: "(k, v0) \<in> set kvs"
          and v: "v = (if k = ''$and'' \<or> k = ''$or''
               then (case v0 of JArr cs \<Rightarrow> JArr (map (rewritten lc) cs) | _ \<Rightarrow> v0) else v0)"
          by blast
        show ?thesis
        proof (cases "k = ''$and'' \<or> k = ''$or''")
          case True
          with v0 obtain cs where "v0 = JArr cs" using ent_comb by blast
          with v True show ?thesis by (simp add: leaf_value_def)
        next
          case False
          with v have "v = v0" by (simp only: if_False)
          with ent_leaf[OF v0 False] show ?thesis by (simp only:)
        qed
      qed
      have "\<exists>k x. (k, x) \<in> set kvs \<and> \<not> (k = ''$and'' \<or> k = ''$or'') \<and> \<not> leaf_value x"
      proof (rule ccontr)
        assume no: "\<not> ?thesis"
        have "filter_tree (Suc n) (JObj kvs)"
          unfolding filter_tree_Suc
        proof (intro exI conjI ballI)
          show "JObj kvs = JObj kvs" ..
          show "distinct (map fst kvs)" by (rule d)
          fix e assume e: "e \<in> set kvs"
          obtain k x where kx: "e = (k, x)" by (cases e)
          have a: "k \<noteq> ''$not''" using ent_not e kx by blast
          have b: "\<exists>cs. x = JArr cs \<and> (\<forall>c\<in>set cs. filter_tree n c)" if "k = ''$and'' \<or> k = ''$or''"
            using that ga go e kx unfolding good_def by blast
          have c: "leaf_value x" if "\<not> (k = ''$and'' \<or> k = ''$or'')"
            using that no e kx by blast
          show "case e of (k, x) \<Rightarrow> k \<noteq> ''$not'' \<and>
           (if k = ''$and'' \<or> k = ''$or''
            then (\<exists>cs. x = JArr cs \<and> (\<forall>c\<in>set cs. filter_tree n c))
            else leaf_value x)"
            using a b c kx by (cases "k = ''$and'' \<or> k = ''$or''") simp_all
        qed
        with Suc.prems(2) filt show False by simp
      qed
      then obtain k0 x0 where k0: "(k0, x0) \<in> set kvs" "\<not> (k0 = ''$and'' \<or> k0 = ''$or'')"
        "\<not> leaf_value x0" by blast
      with ent_leaf have cx: "compound_leaf x0" by blast
      from k0(2) have ka: "k0 \<noteq> ''$and''" and ko: "k0 \<noteq> ''$or''" by simp_all
      from k0(1) have "(k0, x0) \<in> set ?kvs1" using other1[OF ka, of x0] by blast
      then have m2: "(k0, x0) \<in> set ?kvs2" using other2[OF ko, of x0] by blast
      have ex2: "\<exists>k v. (k, v) \<in> set ?kvs2 \<and> k \<in> set (map fst ?kvs2) \<and> compound_leaf v"
        using m2 cx by force
      have sub2: "set (map fst ?kvs2) \<subseteq> fst ` set ?kvs2" by (simp only: set_map)
      have "\<exists>k. for_k_in lc (map fst ?kvs2) (JObj ?kvs2) = Inl (too_complex k)"
      proof (rule for_k_in_compound[OF d2 d2 sub2 _ ex2])
        fix k v assume "(k, v) \<in> set ?kvs2"
        then show "leaf_value v \<or> compound_leaf v" by (rule lv2)
      qed
      then obtain k where s4: "for_k_in lc (map fst (props (JObj ?kvs2))) (JObj ?kvs2) = Inl (too_complex k)"
        unfolding props.simps by blast
      have "translateFilter lc (Suc n) (JObj kvs) extra = Inl (too_complex k)"
        by (simp only: translateFilter.simps truthy.simps not_True_eq_False if_False s1 s2 n3 s4
              andThen.simps)
      then show ?thesis by blast
    qed
  qed
  with filt show ?case by (simp only:)
qed

lemma loose_tree_outcome:
  assumes "loose_tree n filt"
  shows "(\<exists>k. translateFilter lc n filt extra = Inl (too_complex k)) \<longleftrightarrow> \<not> filter_tree n filt"
proof
  assume "\<exists>k. translateFilter lc n filt extra = Inl (too_complex k)"
  then show "\<not> filter_tree n filt"
    using translateFilter_refines[where n=n and filt=filt and extra=extra and lc=lc] by auto
next
  assume "\<not> filter_tree n filt"
  with assms show "\<exists>k. translateFilter lc n filt extra = Inl (too_complex k)"
    by (rule compound_leaf_raises)
qed

subsection \<open>The leaves of a rewritten filter\<close>

text \<open>
  Rewriting changes a leaf exactly when it is a \<^verbatim>\<open>$like\<close> leaf with a non-empty
  pattern; the leaves of the rewritten filter are the rewritten leaves of the filter, in
  the same order and under the same fields, also below \<^verbatim>\<open>$and\<close> and \<^verbatim>\<open>$or\<close>; and
  the rewritten filter differs from the filter exactly when some leaf is changed.
\<close>

lemma rewrite_leaf_changes: "(rewrite_leaf lc field v \<noteq> v) = like_leaf v"
  by (induction lc field v rule: rewrite_leaf.induct)
     (auto simp: like_comparison_def Sequelize_where_def)

lemma leaves_rewritten:
  "leaves (rewritten lc filt) = map (\<lambda>(field, v). (field, rewrite_leaf lc field v)) (leaves filt)"
proof (induction lc filt rule: rewritten.induct)
  case (1 lc kvs)
  let ?rl = "\<lambda>(field, v). (field, rewrite_leaf lc field v)"
  let ?g = "\<lambda>(k, v). (k, if k = ''$and'' \<or> k = ''$or''
            then (case v of JArr cs \<Rightarrow> JArr (map (rewritten lc) cs) | _ \<Rightarrow> v)
            else rewrite_leaf lc k v)"
  let ?L = "\<lambda>(k, v). if k = ''$and'' \<or> k = ''$or''
        then (case v of JArr cs \<Rightarrow> concat (map leaves cs) | _ \<Rightarrow> [])
        else [(k, v)]"
  have entry: "?L (?g e) = map ?rl (?L e)" if e: "e \<in> set kvs" for e
  proof -
    obtain k v where kv: "e = (k, v)" by (cases e)
    show ?thesis
    proof (cases "k = ''$and'' \<or> k = ''$or''")
      case False
      with kv show ?thesis by simp
    next
      case True
      show ?thesis
      proof (cases v)
        case (JArr cs)
        have "leaves (rewritten lc c) = map ?rl (leaves c)" if "c \<in> set cs" for c
          using "1.IH"[OF e kv[symmetric] True JArr that] .
        then have "map (\<lambda>c. leaves (rewritten lc c)) cs = map (\<lambda>c. map ?rl (leaves c)) cs"
          by (intro map_cong[OF refl])
        then have "concat (map leaves (map (rewritten lc) cs)) = map ?rl (concat (map leaves cs))"
          by (simp only: map_concat map_map comp_def)
        with kv True JArr show ?thesis by simp
      qed (use kv True in simp_all)
    qed
  qed
  have "leaves (rewritten lc (JObj kvs)) = concat (map (\<lambda>e. ?L (?g e)) kvs)"
    by (simp add: comp_def)
  also have "\<dots> = concat (map (\<lambda>e. map ?rl (?L e)) kvs)"
    using entry by (metis (no_types, lifting) map_cong)
  also have "\<dots> = map ?rl (concat (map ?L kvs))"
    by (simp add: map_concat comp_def)
  finally show ?case by simp
qed simp_all

lemma rewritten_changes_iff:
  "(rewritten lc filt \<noteq> filt) = list_ex (\<lambda>(field, v). like_leaf v) (leaves filt)"
proof (induction lc filt rule: rewritten.induct)
  case (1 lc kvs)
  let ?g = "\<lambda>(k, v). (k, if k = ''$and'' \<or> k = ''$or''
            then (case v of JArr cs \<Rightarrow> JArr (map (rewritten lc) cs) | _ \<Rightarrow> v)
            else rewrite_leaf lc k v)"
  let ?L = "\<lambda>(k, v). if k = ''$and'' \<or> k = ''$or''
        then (case v of JArr cs \<Rightarrow> concat (map leaves cs) | _ \<Rightarrow> [])
        else [(k, v)]"
  have entry: "(?g e \<noteq> e) = list_ex (\<lambda>(field, v). like_leaf v) (?L e)" if e: "e \<in> set kvs" for e
  proof -
    obtain k v where kv: "e = (k, v)" by (cases e)
    show ?thesis
    proof (cases "k = ''$and'' \<or> k = ''$or''")
      case False
      with kv show ?thesis by (simp add: rewrite_leaf_changes)
    next
      case True
      show ?thesis
      proof (cases v)
        case (JArr cs)
        have ih: "(rewritten lc c \<noteq> c) = list_ex (\<lambda>(field, v). like_leaf v) (leaves c)"
          if "c \<in> set cs" for c
          using "1.IH"[OF e kv[symmetric] True JArr that] .
        have "(map (rewritten lc) cs \<noteq> cs) = (\<exists>c\<in>set cs. rewritten lc c \<noteq> c)"
          using map_eq_conv[of "rewritten lc" cs id] by auto
        also have "\<dots> = (\<exists>c\<in>set cs. list_ex (\<lambda>(field, v). like_leaf v) (leaves c))"
          using ih by blast
        also have "\<dots> = list_ex (\<lambda>(field, v). like_leaf v) (concat (map leaves cs))"
          by (auto simp: list_ex_iff)
        finally show ?thesis using kv True JArr by simp
      qed (use kv True in simp_all)
    qed
  qed
  have "(rewritten lc (JObj kvs) \<noteq> JObj kvs) = (map ?g kvs \<noteq> kvs)" by simp
  also have "\<dots> = (\<exists>e\<in>set kvs. ?g e \<noteq> e)"
    using map_eq_conv[of ?g kvs id] by auto
  also have "\<dots> = (\<exists>e\<in>set kvs. list_ex (\<lambda>(field, v). like_leaf v) (?L e))"
    using entry by blast
  also have "\<dots> = list_ex (\<lambda>(field, v). like_leaf v) (leaves (JObj kvs))"
    by (auto simp: list_ex_iff)
  finally show ?case .
qed simp_all

subsection \<open>The \<^verbatim>\<open>$not\<close> branch\<close>

text \<open>
  C3. The specification has translation terminate on every finite tree that contains a
  \<^verbatim>\<open>$not\<close> node and rewrite the node by translating its child. The code passes the
  filter itself to the nested call (\<^verbatim>\<open>filter.$not = translateFilter(filter)\<close>), so the
  nested call meets the same \<^verbatim>\<open>$not\<close> again: whatever room the call stack has and
  however strings are lower-cased, the translation of \<^verbatim>\<open>{$not: {name: 'Fred'}}\<close> ends
  in the stack's \<^verbatim>\<open>RangeError\<close> and returns no predicate.
\<close>

theorem translateFilter_not_overflows:
  "\<forall>lc stack. translateFilter lc stack (JObj [(''$not'', JObj [(''name'', JStr ''Fred'')])]) JUndefined
            = Inl RangeError"
proof (intro allI)
  fix lc stack
  show "translateFilter lc stack (JObj [(''$not'', JObj [(''name'', JStr ''Fred'')])]) JUndefined
          = Inl RangeError"
    by (induction stack) (simp_all add: getprop_def)
qed

text \<open>
  C6. The specification has translation raise its invalid-filter error for every filter
  with a leaf of more than one operator key. In \<^verbatim>\<open>{$not: {name: 'Fred'}, age: {$gt: 1, $lt: 5}}\<close>
  the leaf \<^verbatim>\<open>age\<close> has two operator keys, but the \<^verbatim>\<open>$not\<close> branch runs before the
  loop over the leaves and never returns: the call ends in the stack's \<^verbatim>\<open>RangeError\<close>,
  and the error \<open>too_complex ''age''\<close> is never raised.
\<close>

theorem compound_leaf_beside_not_overflows:
  "\<forall>lc stack. translateFilter lc stack
      (JObj [(''$not'', JObj [(''name'', JStr ''Fred'')]),
             (''age'', JObj [(''$gt'', JNum 1), (''$lt'', JNum 5)])]) JUndefined
     = Inl RangeError"
proof (intro allI)
  fix lc stack
  show "translateFilter lc stack
      (JObj [(''$not'', JObj [(''name'', JStr ''Fred'')]),
             (''age'', JObj [(''$gt'', JNum 1), (''$lt'', JNum 5)])]) JUndefined
     = Inl RangeError"
    by (induction stack) (simp_all add: getprop_def)
qed

subsection \<open>Composition with the constraint\<close>

text \<open>
  A filter that is absent (falsy) gives the constraint back as it is, which is no
  predicate when the constraint is absent too. When filter and constraint are both
  present, the call yields what the call without constraint yields, rewritten filter
  \<open>F'\<close> or error, and wraps \<open>F'\<close> as \<^verbatim>\<open>{$and: [F', C]}\<close>: on a filter tree without
  \<^verbatim>\<open>$not\<close> that fits the call stack it yields \<^verbatim>\<open>{$and: [rewritten F, C]}\<close>, in which
  the constraint is a conjunct of its own.
\<close>

lemma constraint_wraps_rewritten:
  "(\<not> truthy filt \<longrightarrow> translateFilter lc (Suc stack) filt extra = Inr (extra, filt))
   \<and> (truthy filt \<and> truthy extra \<longrightarrow>
        translateFilter lc stack filt extra =
          andThen (translateFilter lc stack filt JUndefined)
            (\<lambda>r. Inr (JObj [(''$and'', JArr [fst r, extra])], snd r)))
   \<and> (filter_tree stack filt \<and> truthy extra \<longrightarrow>
        translateFilter lc stack filt extra =
          Inr (JObj [(''$and'', JArr [rewritten lc filt, extra])], rewritten lc filt))
   \<and> where_holds c (JObj [(''$and'', JArr [f', extra])]) r
        = (where_holds c f' r \<and> where_holds c extra r)"
proof (intro conjI impI)
  assume "\<not> truthy filt"
  then show "translateFilter lc (Suc stack) filt extra = Inr (extra, filt)" by simp
next
  assume "truthy filt \<and> truthy extra"
  then show "translateFilter lc stack filt extra =
          andThen (translateFilter lc stack filt JUndefined)
            (\<lambda>r. Inr (JObj [(''$and'', JArr [fst r, extra])], snd r))"
    using translateFilter_extra[where filt=filt and stack=stack and extra=extra and lc=lc] by simp
next
  assume "filter_tree stack filt \<and> truthy extra"
  then show "translateFilter lc stack filt extra =
          Inr (JObj [(''$and'', JArr [rewritten lc filt, extra])], rewritten lc filt)"
    using translateFilter_refines[where n=stack and filt=filt and extra=extra and lc=lc] by simp
next
  show "where_holds c (JObj [(''$and'', JArr [f', extra])]) r
        = (where_holds c f' r \<and> where_holds c extra r)"
    by simp
qed

text \<open>
  C1. The specification has the translation of every filter \<open>F\<close> with every
  constraint map \<open>C\<close> be the conjunction of the rewritten filter and \<open>C\<close>. For the
  filter \<^verbatim>\<open>{$not: {name: 'Fred'}}\<close> with the constraint \<^verbatim>\<open>{groupId: 2}\<close> the code
  returns no predicate at all: the \<^verbatim>\<open>$not\<close> branch passes the filter itself to the
  nested call, which meets the same \<^verbatim>\<open>$not\<close> again, and whatever room the call stack
  has and however strings are lower-cased the call ends in the stack's
  \<^verbatim>\<open>RangeError\<close>.
\<close>

theorem constraint_with_not_overflows:
  "\<forall>lc stack. translateFilter lc stack (JObj [(''$not'', JObj [(''name'', JStr ''Fred'')])])
      (JObj [(''groupId'', JNum 2)])
     = Inl RangeError"
proof (intro allI)
  fix lc stack
  have "translateFilter lc stack (JObj [(''$not'', JObj [(''name'', JStr ''Fred'')])]) extra
          = Inl RangeError" for extra
    by (induction stack arbitrary: extra) (simp_all add: getprop_def)
  then show "translateFilter lc stack (JObj [(''$not'', JObj [(''name'', JStr ''Fred'')])])
      (JObj [(''groupId'', JNum 2)]) = Inl RangeError" .
qed

subsection \<open>Rewriting of the leaves\<close>

text \<open>
  The lower-casing of the examples at the pattern \<^verbatim>\<open>Wilma%\<close>.
\<close>

lemma ascii_lower_Wilma: "ascii_lower ''Wilma%'' = ''wilma%''"
  by code_simp

text \<open>
  C9, as the specification states it, fails on a \<^verbatim>\<open>$like\<close> leaf whose pattern is the
  empty string: the guard \<^verbatim>\<open>if (value.$like)\<close> reads the empty pattern as absent, and
  the leaf \<^verbatim>\<open>{name: {$like: ''}}\<close> is returned as it was, not as a comparison of the
  lower-cased column.
\<close>

theorem empty_like_pattern_kept:
  "translateFilter ascii_lower (Suc 0) (JObj [(''name'', JObj [(''$like'', JStr [])])]) JUndefined
     = Inr (JObj [(''name'', JObj [(''$like'', JStr [])])],
            JObj [(''name'', JObj [(''$like'', JStr [])])])
   \<and> JObj [(''$like'', JStr [])] \<noteq> like_comparison ascii_lower ''name'' []"
  by (simp add: getprop_def like_comparison_def Sequelize_where_def)

text \<open>
  C9, amended. On a filter tree without \<^verbatim>\<open>$not\<close> that fits the call stack, and for
  every lower-casing of strings, translation returns the rewritten tree, and its leaves
  are the leaves of the filter, each under its field and in its place, at the top level
  and among the children of \<^verbatim>\<open>$and\<close> and \<^verbatim>\<open>$or\<close> at every depth, with each leaf
  holding what \<open>rewrite_leaf\<close> makes of it: the comparison of the lower-cased column
  with the lower-cased pattern under \<^verbatim>\<open>$like\<close> for a leaf \<^verbatim>\<open>{field: {$like: pattern}}\<close>
  with a non-empty pattern, and the leaf itself for every other single operator, for a
  scalar value and for the empty pattern.
\<close>

theorem like_leaves_rewritten:
  assumes "filter_tree stack filt"
  shows "translateFilter lc stack filt JUndefined = Inr (rewritten lc filt, rewritten lc filt)
       \<and> leaves (rewritten lc filt)
           = map (\<lambda>(field, v). (field, rewrite_leaf lc field v)) (leaves filt)"
  using translateFilter_refines[OF assms, where extra=JUndefined and lc=lc]
  by (simp add: leaves_rewritten)

text \<open>
  The theorem at the filter \<^verbatim>\<open>{$and: [{name: {$like: 'Wilma%'}}], age: {$gt: 30}}\<close>,
  whose \<^verbatim>\<open>$like\<close> leaf lies below \<^verbatim>\<open>$and\<close>.
\<close>

theorem like_leaves_rewritten_witness:
  "translateFilter ascii_lower (Suc (Suc 0))
      (JObj [(''$and'', JArr [JObj [(''name'', JObj [(''$like'', JStr ''Wilma%'')])]]),
             (''age'', JObj [(''$gt'', JNum 30)])])
      JUndefined
     = Inr (JObj [(''$and'', JArr [JObj [(''name'', like_comparison ascii_lower ''name'' ''Wilma%'')]]),
                  (''age'', JObj [(''$gt'', JNum 30)])],
            JObj [(''$and'', JArr [JObj [(''name'', like_comparison ascii_lower ''name'' ''Wilma%'')]]),
                  (''age'', JObj [(''$gt'', JNum 30)])])
   \<and> leaves (JObj [(''$and'', JArr [JObj [(''name'', like_comparison ascii_lower ''name'' ''Wilma%'')]]),
                  (''age'', JObj [(''$gt'', JNum 30)])])
       = [(''name'', like_comparison ascii_lower ''name'' ''Wilma%''), (''age'', JObj [(''$gt'', JNum 30)])]
   \<and> like_comparison ascii_lower ''name'' ''Wilma%''
       = Sequelize_where (Sequelize_fn ''lower'' [Sequelize_col ''name''])
           (JObj [(''$like'', JStr ''wilma%'')])"
proof -
  let ?f = "JObj [(''$and'', JArr [JObj [(''name'', JObj [(''$like'', JStr ''Wilma%'')])]]),
             (''age'', JObj [(''$gt'', JNum 30)])]"
  have ft: "filter_tree (Suc (Suc 0)) ?f"
    by (simp add: leaf_value_def getprop_def)
  have lc: "like_comparison ascii_lower ''name'' ''Wilma%''
       = Sequelize_where (Sequelize_fn ''lower'' [Sequelize_col ''name''])
           (JObj [(''$like'', JStr ''wilma%'')])"
    by (simp add: like_comparison_def ascii_lower_Wilma)
  from like_leaves_rewritten[OF ft, of ascii_lower] lc show ?thesis
    by (simp add: like_comparison_def Sequelize_where_def)
qed

section \<open>Properties of the collection operations\<close>

subsection \<open>Selection under a constraint without an \<^verbatim>\<open>id\<close> key\<close>

text \<open>
  When the constraint map has no \<^verbatim>\<open>id\<close> key, \<^verbatim>\<open>{id, ...filter}\<close> is the identifier
  condition followed by the constraint's fields: a row is selected if and only if its
  identifier matches and it satisfies the constraint, and \<^verbatim>\<open>get\<close> returns the
  not-found sentinel when no row does both.
\<close>

lemma update_absent_appends:
  "k \<notin> fst ` set al \<Longrightarrow> AList.update k v al = al @ [(k, v)]"
  by (induction al) auto

lemma fold_update_appends:
  "distinct (map fst kvs) \<Longrightarrow> fst ` set kvs \<inter> fst ` set entries = {} \<Longrightarrow>
   fold (\<lambda>(k, x) acc. AList.update k x acc) kvs entries = entries @ kvs"
proof (induction kvs arbitrary: entries)
  case Nil
  then show ?case by simp
next
  case (Cons a kvs)
  obtain k x where a: "a = (k, x)" by (cases a)
  from Cons.prems a have k: "k \<notin> fst ` set entries" by auto
  have d: "distinct (map fst kvs)" using Cons.prems(1) by simp
  have "fst ` set kvs \<inter> fst ` set (entries @ [(k, x)]) = {}"
    using Cons.prems a by auto
  from Cons.IH[OF d this] show ?case
    using a k by (simp add: update_absent_appends)
qed

lemma spread_without_id:
  assumes "distinct (map fst kvs)" and "''id'' \<notin> fst ` set kvs"
  shows "object_spread [(''id'', i)] (JObj kvs) = JObj ((''id'', i) # kvs)"
  using fold_update_appends[OF assms(1), of "[(''id'', i)]"] assms(2)
  by (simp add: object_spread_def)

lemma spread_absent_constraint:
  "nullish v \<Longrightarrow> object_spread [(''id'', i)] v = JObj [(''id'', i)]"
  by (cases v) (simp_all add: object_spread_def)

lemma selection_without_id_key:
  assumes "distinct (map fst kvs)" and "''id'' \<notin> fst ` set kvs"
  shows "where_holds c (object_spread [(''id'', i)] (JObj kvs)) r
           = (c ''id'' i r \<and> where_holds c (JObj kvs) r)"
  by (simp add: spread_without_id[OF assms])

lemma where_q_push_id: "where_q (push_id q) = where_q q"
  by (simp add: push_id_def split: option.splits)

lemma where_q_get_query:
  "where_q (get_query rels i options filt) = Some (object_spread [(''id'', i)] filt)"
  by (simp add: get_query_def Let_def where_q_push_id pickBy_notNull_def object_spread_def)

lemma get_not_found_without_id_key:
  assumes "distinct (map fst kvs)" and "''id'' \<notin> fst ` set kvs"
    and "\<forall>r\<in>set (rows t). \<not> (cond e ''id'' i r \<and> where_holds (cond e) (JObj kvs) r)"
  shows "fst (get e rels url i options (JObj kvs) t) = Inr None"
proof -
  have "find (matching e (where_q (get_query rels i options (JObj kvs)))) (rows t) = None"
    unfolding find_None_iff where_q_get_query matching_def option.case
      selection_without_id_key[OF assms(1,2)]
    using assms(3) by blast
  then show ?thesis
    by (simp add: get_def model_findOne_def Let_def)
qed

lemma delete_without_id_key:
  assumes "distinct (map fst kvs)" and "''id'' \<notin> fst ` set kvs"
  shows "rows (snd (delete e i (JObj kvs) t))
           = filter (\<lambda>r. \<not> (cond e ''id'' i r \<and> where_holds (cond e) (JObj kvs) r)) (rows t)"
  by (simp add: delete_def model_destroy_def selection_without_id_key[OF assms])

subsection \<open>The queries sent to the engine\<close>

text \<open>
  When the filter translates, \<^verbatim>\<open>list\<close> builds its query from the translated filter
  and the fieldset with \<^verbatim>\<open>id\<close>, and sends it to \<^verbatim>\<open>findAndCountAll\<close>; when it does
  not, \<^verbatim>\<open>list\<close> ends with the translator's error and the engine is not reached.
  \<^verbatim>\<open>get\<close> sends its query to \<^verbatim>\<open>findOne\<close> in every case.
\<close>

lemma list_query_translated:
  assumes "translateFilter lc stack (filter_o options) filt = Inr (w, filt')"
  shows "\<exists>q. list_query lc stack rels options filt = Inr (q, filt', attributes_q q)
            \<and> where_q q = pickBy_notNull w
            \<and> attributes_q q
                = map_option (\<lambda>P. if ''id'' \<in> set P then P else P @ [''id'']) (fieldsFor_self options)"
  using assms by (simp add: list_query_def Let_def push_id_attrs where_q_push_id)

lemma list_sends_query:
  assumes "list_query (lowerCase e) stack rels options filt = Inr (q, filt', fields')"
  shows "calls (snd (list e stack rels url options filt t)) = calls t @ [FindAndCountAll q]"
  using assms by (simp add: list_def model_findAndCountAll_def Let_def split: prod.splits)

lemma list_untranslated:
  assumes "translateFilter (lowerCase e) stack (filter_o options) filt = Inl err"
  shows "list e stack rels url options filt t = (Inl err, t)"
  using assms by (simp add: list_def list_query_def Let_def)

lemma get_sends_query:
  "calls (snd (get e rels url i options filt t))
     = calls t @ [FindOne (get_query rels i options filt)]"
  by (simp add: get_def model_findOne_def Let_def split: option.splits)

subsection \<open>The filter object after a list call\<close>

text \<open>
  C10, as the specification states it, fails on a filter in which nothing is to be
  rewritten: after a list call with the filter \<^verbatim>\<open>{name: 'Wilma Flintstone'}\<close> the
  filter object that the query options handed to the call holds a value equal to the
  one it held before.
\<close>

theorem scalar_filter_unchanged_by_list:
  "list_query ascii_lower (Suc 0) []
      \<lparr>page_o = \<lparr>page_number = 1, page_size = 10\<rparr>, sort_o = None, fieldsFor_self = None,
       filter_o = JObj [(''name'', JStr ''Wilma Flintstone'')], include_o = None\<rparr> JUndefined
   = Inr (\<lparr>limit_q = Some 10, offset_q = Some 0,
           where_q = Some (JObj [(''name'', JStr ''Wilma Flintstone'')]),
           attributes_q = None, order_q = None, include_q = Some []\<rparr>,
          JObj [(''name'', JStr ''Wilma Flintstone'')], None)"
  by (simp add: list_query_def getprop_def push_id_def pickBy_notNull_def getInclude_def
        values_of_def getSortOptions_def)

text \<open>
  C10, amended. The translator rewrites in place the filter object that the query
  options hand to \<^verbatim>\<open>list\<close>: on a filter tree without \<^verbatim>\<open>$not\<close> that fits the call
  stack, the object holds the rewritten tree after the call; without a constraint the
  translator returns that same object, and it is the \<^verbatim>\<open>where\<close> of the query sent to
  the engine (with a constraint the \<^verbatim>\<open>where\<close> is \<^verbatim>\<open>{$and: [rewritten filter, constraint]}\<close>).
  The fieldset array handed to the call is extended in place with \<^verbatim>\<open>id\<close> in the same
  way. The filter object differs from the value it held before the call exactly when
  some leaf of the filter, at the top level or below \<^verbatim>\<open>$and\<close> and \<^verbatim>\<open>$or\<close>, is a
  \<^verbatim>\<open>$like\<close> leaf with a non-empty pattern.
\<close>

theorem list_rewrites_filter_in_place:
  assumes "filter_tree stack (filter_o options)"
  shows "translateFilter (lowerCase e) stack (filter_o options) extra
           = Inr (if truthy extra
                  then JObj [(''$and'', JArr [rewritten (lowerCase e) (filter_o options), extra])]
                  else rewritten (lowerCase e) (filter_o options),
                  rewritten (lowerCase e) (filter_o options))
       \<and> (\<exists>q. list_query (lowerCase e) stack rels options extra
                = Inr (q, rewritten (lowerCase e) (filter_o options),
                       map_option (\<lambda>P. if ''id'' \<in> set P then P else P @ [''id''])
                         (fieldsFor_self options))
            \<and> where_q q = Some (if truthy extra
                                then JObj [(''$and'', JArr [rewritten (lowerCase e) (filter_o options), extra])]
                                else rewritten (lowerCase e) (filter_o options))
            \<and> calls (snd (list e stack rels url options extra t)) = calls t @ [FindAndCountAll q])
       \<and> (rewritten (lowerCase e) (filter_o options) \<noteq> filter_o options)
           = list_ex (\<lambda>(field, v). like_leaf v) (leaves (filter_o options))"
proof (intro conjI)
  let ?F' = "rewritten (lowerCase e) (filter_o options)"
  let ?w = "if truthy extra then JObj [(''$and'', JArr [?F', extra])] else ?F'"
  show tf: "translateFilter (lowerCase e) stack (filter_o options) extra = Inr (?w, ?F')"
    using assms by (rule translateFilter_refines)
  from assms obtain kvs where f: "filter_o options = JObj kvs"
    using filter_tree_JObj by blast
  have nn: "pickBy_notNull ?w = Some ?w" unfolding f by (simp add: pickBy_notNull_def)
  from list_query_translated[OF tf, of rels] obtain q
    where q: "list_query (lowerCase e) stack rels options extra = Inr (q, ?F', attributes_q q)"
      and w: "where_q q = pickBy_notNull ?w"
      and a: "attributes_q q
                = map_option (\<lambda>P. if ''id'' \<in> set P then P else P @ [''id'']) (fieldsFor_self options)"
    by blast
  have c: "calls (snd (list e stack rels url options extra t)) = calls t @ [FindAndCountAll q]"
    using q by (rule list_sends_query)
  show "\<exists>q. list_query (lowerCase e) stack rels options extra
                = Inr (q, ?F', map_option (\<lambda>P. if ''id'' \<in> set P then P else P @ [''id''])
                         (fieldsFor_self options))
            \<and> where_q q = Some ?w
            \<and> calls (snd (list e stack rels url options extra t)) = calls t @ [FindAndCountAll q]"
    using q w a c nn by (intro exI[of _ q]) (simp only: simp_thms)
  show "(?F' \<noteq> filter_o options) = list_ex (\<lambda>(field, v). like_leaf v) (leaves (filter_o options))"
    by (rule rewritten_changes_iff)
qed

text \<open>
  The theorem at a list call with the filter \<^verbatim>\<open>{$and: [{name: {$like: 'Wilma%'}}]}\<close> and
  the fieldset \<^verbatim>\<open>['name']\<close>.
\<close>

theorem list_rewrites_filter_in_place_witness:
  "list_query ascii_lower (Suc (Suc 0)) []
      (example_options\<lparr>filter_o := JObj [(''$and'', JArr [JObj [(''name'', JObj [(''$like'', JStr ''Wilma%'')])]])],
                       fieldsFor_self := Some [''name'']\<rparr>) JUndefined
   = Inr (\<lparr>limit_q = Some 10, offset_q = Some 0,
           where_q = Some (JObj [(''$and'', JArr [JObj [(''name'', like_comparison ascii_lower ''name'' ''Wilma%'')]])]),
           attributes_q = Some [''name'', ''id''], order_q = None, include_q = Some []\<rparr>,
          JObj [(''$and'', JArr [JObj [(''name'', like_comparison ascii_lower ''name'' ''Wilma%'')]])],
          Some [''name'', ''id''])
   \<and> calls (snd (list example_env (Suc (Suc 0)) [] ''/users''
        (example_options\<lparr>filter_o := JObj [(''$and'', JArr [JObj [(''name'', JObj [(''$like'', JStr ''Wilma%'')])]])],
                       fieldsFor_self := Some [''name'']\<rparr>) JUndefined example_table))
       = [FindAndCountAll \<lparr>limit_q = Some 10, offset_q = Some 0,
           where_q = Some (JObj [(''$and'', JArr [JObj [(''name'', like_comparison ascii_lower ''name'' ''Wilma%'')]])]),
           attributes_q = Some [''name'', ''id''], order_q = None, include_q = Some []\<rparr>]
   \<and> JObj [(''$and'', JArr [JObj [(''name'', like_comparison ascii_lower ''name'' ''Wilma%'')]])]
       \<noteq> JObj [(''$and'', JArr [JObj [(''name'', JObj [(''$like'', JStr ''Wilma%'')])]])]"
proof -
  let ?F = "JObj [(''$and'', JArr [JObj [(''name'', JObj [(''$like'', JStr ''Wilma%'')])]])]"
  let ?o = "example_options\<lparr>filter_o := ?F, fieldsFor_self := Some [''name'']\<rparr>"
  have le: "lowerCase example_env = ascii_lower" by (simp add: example_env_def)
  have ft: "filter_tree (Suc (Suc 0)) (filter_o ?o)"
    by (simp add: leaf_value_def getprop_def)
  have rw: "rewritten ascii_lower ?F
              = JObj [(''$and'', JArr [JObj [(''name'', like_comparison ascii_lower ''name'' ''Wilma%'')]])]"
    by simp
  have ll: "list_ex (\<lambda>(field, v). like_leaf v) (leaves ?F)" by simp
  have ct: "calls example_table = []" by (simp add: example_table_def)
  have ff: "fieldsFor_self ?o = Some [''name'']" "filter_o ?o = ?F" by simp_all
  let ?Q = "\<lparr>limit_q = Some 10, offset_q = Some 0,
           where_q = Some (JObj [(''$and'', JArr [JObj [(''name'', like_comparison ascii_lower ''name'' ''Wilma%'')]])]),
           attributes_q = Some [''name'', ''id''], order_q = None, include_q = Some []\<rparr>"
  have ev: "list_query ascii_lower (Suc (Suc 0)) [] ?o JUndefined
              = Inr (?Q, JObj [(''$and'', JArr [JObj [(''name'', like_comparison ascii_lower ''name'' ''Wilma%'')]])],
                     Some [''name'', ''id''])"
    by (simp add: list_query_def example_options_def getprop_def push_id_def pickBy_notNull_def
          getInclude_def values_of_def getSortOptions_def like_comparison_def)
  note th = list_rewrites_filter_in_place[OF ft, where e=example_env and rels="[]"
      and extra=JUndefined and url="''/users''" and t=example_table]
  from th obtain q
    where q: "list_query (lowerCase example_env) (Suc (Suc 0)) [] ?o JUndefined
                = Inr (q, rewritten (lowerCase example_env) (filter_o ?o),
                       map_option (\<lambda>P. if ''id'' \<in> set P then P else P @ [''id''])
                         (fieldsFor_self ?o))"
      and c: "calls (snd (list example_env (Suc (Suc 0)) [] ''/users'' ?o JUndefined example_table))
                = calls example_table @ [FindAndCountAll q]"
    by blast
  from q ev have "q = ?Q" unfolding le by simp
  with c ct have c': "calls (snd (list example_env (Suc (Suc 0)) [] ''/users'' ?o JUndefined example_table))
                = [FindAndCountAll ?Q]" by simp
  from th have ne: "rewritten (lowerCase example_env) (filter_o ?o) \<noteq> filter_o ?o"
    using ll by simp
  then have ne': "JObj [(''$and'', JArr [JObj [(''name'', like_comparison ascii_lower ''name'' ''Wilma%'')]])]
       \<noteq> ?F" unfolding le by simp
  from ev c' ne' show ?thesis by (simp only: simp_thms)
qed

subsection \<open>Projection, constraint check, selection and self links\<close>

text \<open>
  C8. The projection that reaches the storage engine. Every \<^verbatim>\<open>get\<close> call sends one
  query to \<^verbatim>\<open>findOne\<close>, and every \<^verbatim>\<open>list\<close> call whose filter translates sends one
  query to \<^verbatim>\<open>findAndCountAll\<close>; the projection of that query is the sparse fieldset
  \<open>P\<close> with \<^verbatim>\<open>id\<close> appended when \<open>P\<close> has no \<^verbatim>\<open>id\<close>, \<open>P\<close> unchanged when it has,
  and no projection when the options specify no fieldset. A \<^verbatim>\<open>list\<close> call whose filter
  does not translate ends with the translator's error before any query is sent.
\<close>

theorem projection_sent_to_engine:
  "(\<exists>q. calls (snd (get e rels url i options filt t)) = calls t @ [FindOne q]
        \<and> attributes_q q
            = map_option (\<lambda>P. if ''id'' \<in> set P then P else P @ [''id'']) (fieldsFor_self options))
   \<and> (\<forall>r. translateFilter (lowerCase e) stack (filter_o options) filt = Inr r \<longrightarrow>
        (\<exists>q. calls (snd (list e stack rels url options filt t)) = calls t @ [FindAndCountAll q]
           \<and> attributes_q q
               = map_option (\<lambda>P. if ''id'' \<in> set P then P else P @ [''id'']) (fieldsFor_self options)))
   \<and> (\<forall>err. translateFilter (lowerCase e) stack (filter_o options) filt = Inl err \<longrightarrow>
        list e stack rels url options filt t = (Inl err, t))"
proof (intro conjI allI impI)
  show "\<exists>q. calls (snd (get e rels url i options filt t)) = calls t @ [FindOne q]
        \<and> attributes_q q
            = map_option (\<lambda>P. if ''id'' \<in> set P then P else P @ [''id'']) (fieldsFor_self options)"
    using get_sends_query[of e rels url i options filt t]
    by (intro exI[of _ "get_query rels i options filt"])
       (simp add: get_query_def Let_def push_id_attrs)
next
  fix r assume r: "translateFilter (lowerCase e) stack (filter_o options) filt = Inr r"
  obtain w filt' where "r = (w, filt')" by (cases r)
  with r have "translateFilter (lowerCase e) stack (filter_o options) filt = Inr (w, filt')" by simp
  from list_query_translated[OF this, of rels] obtain q
    where q: "list_query (lowerCase e) stack rels options filt = Inr (q, filt', attributes_q q)"
      and a: "attributes_q q
                = map_option (\<lambda>P. if ''id'' \<in> set P then P else P @ [''id'']) (fieldsFor_self options)"
    by blast
  from list_sends_query[OF q] a
  show "\<exists>q. calls (snd (list e stack rels url options filt t)) = calls t @ [FindAndCountAll q]
           \<and> attributes_q q
               = map_option (\<lambda>P. if ''id'' \<in> set P then P else P @ [''id'']) (fieldsFor_self options)"
    by blast
next
  fix err assume "translateFilter (lowerCase e) stack (filter_o options) filt = Inl err"
  then show "list e stack rels url options filt t = (Inl err, t)" by (rule list_untranslated)
qed

text \<open>
  The theorem at a \<^verbatim>\<open>get\<close> and a \<^verbatim>\<open>list\<close> call with the fieldset \<^verbatim>\<open>['name']\<close>,
  and at a \<^verbatim>\<open>list\<close> call whose filter \<^verbatim>\<open>{age: {$gt: 1, $lt: 5}}\<close> does not translate.
\<close>

theorem projection_sent_to_engine_witness:
  "calls (snd (get example_env [] ''/users'' (JNum 5)
                 (example_options\<lparr>fieldsFor_self := Some [''name'']\<rparr>) JUndefined example_table))
     = [FindOne \<lparr>limit_q = None, offset_q = None, where_q = Some (JObj [(''id'', JNum 5)]),
                 attributes_q = Some [''name'', ''id''], order_q = None, include_q = Some []\<rparr>]
   \<and> translateFilter (lowerCase example_env) (Suc 0)
        (filter_o (example_options\<lparr>fieldsFor_self := Some [''name'']\<rparr>)) JUndefined
       = Inr (JUndefined, JUndefined)
   \<and> calls (snd (list example_env (Suc 0) [] ''/users''
                 (example_options\<lparr>fieldsFor_self := Some [''name'']\<rparr>) JUndefined example_table))
     = [FindAndCountAll \<lparr>limit_q = Some 10, offset_q = Some 0, where_q = None,
                 attributes_q = Some [''name'', ''id''], order_q = None, include_q = Some []\<rparr>]
   \<and> translateFilter (lowerCase example_env) (Suc 0)
        (filter_o (example_options\<lparr>filter_o := JObj [(''age'', JObj [(''$gt'', JNum 1), (''$lt'', JNum 5)])],
                                   fieldsFor_self := Some [''name'']\<rparr>)) JUndefined
       = Inl (too_complex ''age'')
   \<and> list example_env (Suc 0) [] ''/users''
        (example_options\<lparr>filter_o := JObj [(''age'', JObj [(''$gt'', JNum 1), (''$lt'', JNum 5)])],
                         fieldsFor_self := Some [''name'']\<rparr>) JUndefined example_table
       = (Inl (too_complex ''age''), example_table)"
proof -
  let ?o = "example_options\<lparr>fieldsFor_self := Some [''name'']\<rparr>"
  let ?o' = "example_options\<lparr>filter_o := JObj [(''age'', JObj [(''$gt'', JNum 1), (''$lt'', JNum 5)])],
                         fieldsFor_self := Some [''name'']\<rparr>"
  have tf: "translateFilter (lowerCase example_env) (Suc 0) (filter_o ?o) JUndefined
              = Inr (JUndefined, JUndefined)"
    by (simp add: example_options_def)
  have tf': "translateFilter (lowerCase example_env) (Suc 0) (filter_o ?o') JUndefined
              = Inl (too_complex ''age'')"
    by (simp add: getprop_def)
  note th = projection_sent_to_engine[where e=example_env and rels="[]" and url="''/users''"
      and i="JNum 5" and options="?o" and filt=JUndefined and t=example_table and stack="Suc 0"]
  note th' = projection_sent_to_engine[where e=example_env and rels="[]" and url="''/users''"
      and i="JNum 5" and options="?o'" and filt=JUndefined and t=example_table and stack="Suc 0"]
  from th' tf' have l': "list example_env (Suc 0) [] ''/users'' ?o' JUndefined example_table
       = (Inl (too_complex ''age''), example_table)" by blast
  from th obtain q where
    g0: "calls (snd (get example_env [] ''/users'' (JNum 5) ?o JUndefined example_table))
           = calls example_table @ [FindOne q]"
    and ga: "attributes_q q = map_option (\<lambda>P. if ''id'' \<in> set P then P else P @ [''id''])
               (fieldsFor_self ?o)" by blast
  from th tf obtain q' where
    l0: "calls (snd (list example_env (Suc 0) [] ''/users'' ?o JUndefined example_table))
           = calls example_table @ [FindAndCountAll q']"
    and la: "attributes_q q' = map_option (\<lambda>P. if ''id'' \<in> set P then P else P @ [''id''])
               (fieldsFor_self ?o)" by blast
  have g: "calls (snd (get example_env [] ''/users'' (JNum 5) ?o JUndefined example_table))
     = [FindOne \<lparr>limit_q = None, offset_q = None, where_q = Some (JObj [(''id'', JNum 5)]),
                 attributes_q = Some [''name'', ''id''], order_q = None, include_q = Some []\<rparr>]"
    by (simp add: get_sends_query get_query_def example_options_def example_table_def
          object_spread_def push_id_def pickBy_notNull_def getInclude_def values_of_def)
  have l: "calls (snd (list example_env (Suc 0) [] ''/users'' ?o JUndefined example_table))
     = [FindAndCountAll \<lparr>limit_q = Some 10, offset_q = Some 0, where_q = None,
                 attributes_q = Some [''name'', ''id''], order_q = None, include_q = Some []\<rparr>]"
    by (simp add: list_def list_query_def model_findAndCountAll_def example_options_def
          example_table_def example_env_def push_id_def pickBy_notNull_def getInclude_def
          values_of_def getSortOptions_def Let_def)
  from g tf l tf' l' show ?thesis by (simp only: simp_thms)
qed

text \<open>
  C4. When a constraint map is given and the payload's attributes fail the constraint
  test, \<^verbatim>\<open>create\<close> and \<^verbatim>\<open>update\<close> raise \<^verbatim>\<open>Error('constraint violation')\<close> and the
  table is the one the call found: its rows are unchanged and its log has no new call.
\<close>

theorem constraint_violation_leaves_storage:
  assumes "isPlainObject constraints" and "\<not> test e constraints payload_attributes"
  shows "create e url payload_attributes constraints t = (Inl (Error ''constraint violation''), t)
       \<and> update e url id' payload_attributes constraints t = (Inl (Error ''constraint violation''), t)"
proof -
  from assms(1) have "truthy constraints" by (cases constraints) simp_all
  with assms(2) show ?thesis by (simp add: create_def update_def)
qed

text \<open>
  The theorem at the constraint \<^verbatim>\<open>{groupId: 2}\<close> and a payload with \<^verbatim>\<open>groupId: 1\<close>.
\<close>

theorem constraint_violation_leaves_storage_witness:
  "isPlainObject (JObj [(''groupId'', JNum 2)])
   \<and> \<not> test example_env (JObj [(''groupId'', JNum 2)]) [(''name'', JStr ''Fred''), (''groupId'', JNum 1)]
   \<and> create example_env ''/users'' [(''name'', JStr ''Fred''), (''groupId'', JNum 1)]
        (JObj [(''groupId'', JNum 2)]) example_table
       = (Inl (Error ''constraint violation''), example_table)
   \<and> update example_env ''/users/5'' (JNum 5) [(''name'', JStr ''Fred''), (''groupId'', JNum 1)]
        (JObj [(''groupId'', JNum 2)]) example_table
       = (Inl (Error ''constraint violation''), example_table)"
proof -
  have a: "isPlainObject (JObj [(''groupId'', JNum 2)])" by simp
  have b: "\<not> test example_env (JObj [(''groupId'', JNum 2)]) [(''name'', JStr ''Fred''), (''groupId'', JNum 1)]"
    by (simp add: example_env_def field_equals_def)
  from constraint_violation_leaves_storage[OF a b] a b show ?thesis by simp
qed

text \<open>
  C2. The specification has \<^verbatim>\<open>get\<close>, \<^verbatim>\<open>update\<close> and \<^verbatim>\<open>delete\<close> select a row
  only if its identifier is the \<^verbatim>\<open>id\<close> argument, also under a constraint map with an
  \<^verbatim>\<open>id\<close> key. The code builds \<^verbatim>\<open>{id, ...filter}\<close>, in which the constraint's \<^verbatim>\<open>id\<close>
  replaces the argument: \<^verbatim>\<open>delete(3, {id: 5})\<close> sends the selection \<^verbatim>\<open>{id: 5}\<close> to the
  engine, and selects and deletes the row 5.
\<close>

theorem spread_overrides_id:
  "object_spread [(''id'', JNum 3)] (JObj [(''id'', JNum 5)]) = JObj [(''id'', JNum 5)]
   \<and> delete example_env (JNum 3) (JObj [(''id'', JNum 5)]) example_table
       = (1, example_table\<lparr>rows := [], calls := [Destroy (JObj [(''id'', JNum 5)])]\<rparr>)"
  by (simp add: object_spread_def delete_def model_destroy_def example_env_def example_table_def
        field_equals_def)

text \<open>
  C5. The specification has \<^verbatim>\<open>get\<close> return the not-found sentinel when no row has
  the given id. With the constraint \<^verbatim>\<open>{id: 5}\<close> and the id 3, on a table whose only row
  has the id 5, the code returns that row as the resource \<^verbatim>\<open>/users/3\<close>.
\<close>

theorem get_returns_other_row:
  "fst (get example_env [] ''/users'' (JNum 3) example_options (JObj [(''id'', JNum 5)]) example_table)
     = Inr (Some \<lparr>self = ''/users/3'',
                   attributes = [(''id'', JNum 5), (''name'', JStr ''Wilma''), (''groupId'', JNum 1)],
                   links = []\<rparr>)"
  by (simp add: get_def get_query_def object_spread_def model_findOne_def example_env_def
        example_table_def example_options_def field_equals_def getInclude_def values_of_def
        push_id_def pickBy_notNull_def matching_def project_def Resource_def render_def
        placeholder_def show_int_def digit_char_def)

text \<open>
  C7. The specification has \<^verbatim>\<open>create\<close> return a self link with the identifier of the
  new entity substituted into the template. The code passes the template
  \<^verbatim>\<open>url + '/<%=id>'\<close>, which lacks the \<^verbatim>\<open>%\<close> that closes a placeholder: the self link
  of the entity created under \<^verbatim>\<open>/users\<close> is the text \<^verbatim>\<open>/users/<%=id>\<close>. The template of
  \<^verbatim>\<open>list\<close>, \<^verbatim>\<open>url + '/<%=id%>'\<close>, renders as \<^verbatim>\<open>/users/1\<close>.
\<close>

theorem create_self_link_not_rendered:
  "fst (create example_env ''/users'' [(''name'', JStr ''Fred'')] JUndefined
         \<lparr>rows = [], nextId = 1, returning = True, calls = []\<rparr>)
     = Inr \<lparr>self = ''/users/<%=id>'',
             attributes = [(''id'', JNum 1), (''name'', JStr ''Fred'')], links = []\<rparr>
   \<and> render (''/users'' @ ''/<%=id%>'') [(''id'', JNum 1), (''name'', JStr ''Fred'')] = ''/users/1''"
proof
  show "fst (create example_env ''/users'' [(''name'', JStr ''Fred'')] JUndefined
         \<lparr>rows = [], nextId = 1, returning = True, calls = []\<rparr>)
     = Inr \<lparr>self = ''/users/<%=id>'',
             attributes = [(''id'', JNum 1), (''name'', JStr ''Fred'')], links = []\<rparr>"
    by (simp add: create_def model_create_def Resource_def render_def placeholder_def Let_def)
  show "render (''/users'' @ ''/<%=id%>'') [(''id'', JNum 1), (''name'', JStr ''Fred'')] = ''/users/1''"
    by code_simp
qed

end
